theory Spec2Isabelle
  imports Complex_Main "HOL-Library.AList"
begin


section \<open>Data model of rsolver.py\<close>

text \<open>
  Node identifiers are Python integers (\<open>free_node\<close> counts upwards from
  \<open>len(self.nodes)\<close>).  Resistances are exact rationals, as they are when the caller
  passes \<open>fractions.Fraction\<close> values; binary floating point is not modelled.

  \<open>Resistor\<close> is the named tuple \<open>(r, n1, n2)\<close>.  The selectors are called
  \<open>res_r\<close>, \<open>res_n1\<close>, \<open>res_n2\<close> so that \<open>r\<close>, \<open>n1\<close>, \<open>n2\<close> stay
  usable as variables.
\<close>

type_synonym node = int

datatype resistor = Resistor (res_r: rat) (res_n1: node) (res_n2: node)

text \<open>The property \<open>Resistor.nodes\<close>: \<open>self[1:3]\<close>.\<close>

definition res_nodes :: "resistor \<Rightarrow> node list" where
  "res_nodes x = [res_n1 x, res_n2 x]"

text \<open>
  \<open>Resistor.__eq__\<close>: equal resistance and equal \<^emph>\<open>sets\<close> of endpoints.  Everything
  that Python does through \<open>==\<close> or through hashing (\<open>list.remove\<close>, membership in
  \<open>self.resistors\<close>, \<open>otherthan\<close> on resistors) uses this relation and not the
  structural equality of the tuple.
\<close>

definition res_eq :: "resistor \<Rightarrow> resistor \<Rightarrow> bool" where
  "res_eq a b \<longleftrightarrow> res_r a = res_r b \<and> set (res_nodes a) = set (res_nodes b)"

datatype error =
  KeyError | ValueError | AssertionError | ZeroDivisionError | TypeError | StopIteration
  | Exception

text \<open>
  \<open>RNetwork\<close>.  \<open>nodes\<close> is the dict from node to the list of incident resistors, kept
  as an association list in insertion order (the iteration order of a Python dict).
  \<open>resistors\<close> is the Python set of resistors: a list holding one representative of
  each \<open>res_eq\<close> class, in insertion order.  \<open>terminals\<close> is the set of terminals.
\<close>

record rnetwork =
  nodes :: "(node \<times> resistor list) list"
  resistors :: "resistor list"
  terminals :: "node set"

text \<open>
  A method that mutates the network returns \<open>Inr\<close> of the new network, or \<open>Inl\<close> of the
  exception together with the network as it stands when the exception is raised (the
  object is mutated in place, so a caller that catches the exception goes on with that
  state).
\<close>

type_synonym outcome = "(error \<times> rnetwork) + rnetwork"

definition RNetwork_init :: rnetwork where
  "RNetwork_init = \<lparr>nodes = [], resistors = [], terminals = {}\<rparr>"

text \<open>\<open>otherthan(x, y1, y2)\<close>, on nodes and on resistors (where \<open>==\<close> is \<open>res_eq\<close>).\<close>

definition otherthan_node :: "node \<Rightarrow> node \<Rightarrow> node \<Rightarrow> error + node" where
  "otherthan_node x y1 y2 =
     (if x = y1 then Inr y2 else if x = y2 then Inr y1 else Inl Exception)"

definition otherthan_res :: "resistor \<Rightarrow> resistor \<Rightarrow> resistor \<Rightarrow> error + resistor" where
  "otherthan_res x y1 y2 =
     (if res_eq x y1 then Inr y2 else if res_eq x y2 then Inr y1 else Inl Exception)"

subsection \<open>add and remove\<close>

text \<open>\<open>self.nodes.setdefault(n, []).append(res)\<close>: a new key goes to the end of the dict.\<close>

definition setdefault_append ::
  "node \<Rightarrow> resistor \<Rightarrow> (node \<times> resistor list) list \<Rightarrow> (node \<times> resistor list) list" where
  "setdefault_append n x d =
     AList.update n ((case map_of d n of None \<Rightarrow> [] | Some l \<Rightarrow> l) @ [x]) d"

text \<open>\<open>set.add\<close>, \<open>in\<close> and \<open>set.discard\<close> on the set of resistors.\<close>

definition set_member :: "resistor \<Rightarrow> resistor list \<Rightarrow> bool" where
  "set_member x s = list_ex (\<lambda>e. res_eq e x) s"

definition set_add :: "resistor \<Rightarrow> resistor list \<Rightarrow> resistor list" where
  "set_add x s = (if set_member x s then s else s @ [x])"

definition set_discard :: "resistor \<Rightarrow> resistor list \<Rightarrow> resistor list" where
  "set_discard x s = filter (\<lambda>e. \<not> res_eq e x) s"

definition add :: "rnetwork \<Rightarrow> resistor \<Rightarrow> rnetwork" where
  "add g x =
     g\<lparr>nodes := setdefault_append (res_n2 x) x (setdefault_append (res_n1 x) x (nodes g)),
       resistors := set_add x (resistors g)\<rparr>"

text \<open>\<open>list.remove(x)\<close>: drops the first element equal to \<open>x\<close>; \<open>None\<close> is ValueError.\<close>

fun list_remove :: "resistor \<Rightarrow> resistor list \<Rightarrow> resistor list option" where
  "list_remove x [] = None"
| "list_remove x (y # ys) =
     (if res_eq y x then Some ys else map_option ((#) y) (list_remove x ys))"

text \<open>One round of the loop of \<open>remove\<close>, for one endpoint.\<close>

definition remove_from :: "node \<Rightarrow> resistor \<Rightarrow> rnetwork \<Rightarrow> outcome" where
  "remove_from n x g =
     (case map_of (nodes g) n of
        None \<Rightarrow> Inl (KeyError, g)
      | Some l \<Rightarrow>
          (case list_remove x l of
             None \<Rightarrow> Inl (ValueError, g)
           | Some l' \<Rightarrow>
               if l' = [] then Inr (g\<lparr>nodes := AList.delete n (nodes g)\<rparr>)
               else Inr (g\<lparr>nodes := AList.update n l' (nodes g)\<rparr>)))"

definition remove :: "rnetwork \<Rightarrow> resistor \<Rightarrow> outcome" where
  "remove g x =
     (case remove_from (res_n1 x) x g of
        Inl e \<Rightarrow> Inl e
      | Inr g1 \<Rightarrow>
          (case remove_from (res_n2 x) x g1 of
             Inl e \<Rightarrow> Inl e
           | Inr g2 \<Rightarrow> Inr (g2\<lparr>resistors := set_discard x (resistors g2)\<rparr>)))"

definition add_terminal :: "rnetwork \<Rightarrow> node \<Rightarrow> rnetwork" where
  "add_terminal g n = g\<lparr>terminals := insert n (terminals g)\<rparr>"

definition remove_terminal :: "rnetwork \<Rightarrow> node \<Rightarrow> rnetwork" where
  "remove_terminal g n = g\<lparr>terminals := terminals g - {n}\<rparr>"

subsection \<open>Queries\<close>

definition find_parallel :: "rnetwork \<Rightarrow> node \<Rightarrow> node \<Rightarrow> error + resistor list" where
  "find_parallel g a b =
     (case map_of (nodes g) a of
        None \<Rightarrow> Inl KeyError
      | Some l \<Rightarrow> Inr (filter (\<lambda>x. b \<in> set (res_nodes x)) l))"

definition usage :: "rnetwork \<Rightarrow> node \<Rightarrow> error + nat" where
  "usage g n =
     (case map_of (nodes g) n of
        None \<Rightarrow> Inl KeyError
      | Some l \<Rightarrow> Inr (length l + (if n \<in> terminals g then 1 else 0)))"

subsection \<open>prune_dangling\<close>

text \<open>The loop over the snapshot \<open>list(self.nodes)\<close>.\<close>

fun prune_loop :: "node list \<Rightarrow> rnetwork \<Rightarrow> outcome" where
  "prune_loop [] g = Inr g"
| "prune_loop (n # ns) g =
     (case map_of (nodes g) n of
        None \<Rightarrow> Inl (KeyError, g)
      | Some rs \<Rightarrow>
          if n \<notin> terminals g \<and> length rs = 1 then
            (case remove g (hd rs) of
               Inl e \<Rightarrow> Inl e
             | Inr g' \<Rightarrow> prune_loop ns g')
          else prune_loop ns g)"

definition prune_dangling :: "rnetwork \<Rightarrow> outcome" where
  "prune_dangling g = prune_loop (map fst (nodes g)) g"

subsection \<open>find_series\<close>

text \<open>
  The two \<open>while True\<close> loops of \<open>find_series\<close>.  They have no bound in the source, so
  they take fuel: \<open>None\<close> means that the fuel ran out before the loop left through
  \<open>break\<close> or through an exception.  \<open>ret\<close> is never empty here (it starts as the two
  resistors of the start node and only grows), so \<open>ret[-1]\<close> is \<open>last ret\<close> and
  \<open>ret[0]\<close> is \<open>hd ret\<close>.  Unpacking \<open>*self.nodes[node]\<close> into the two parameters
  of \<open>otherthan\<close> raises TypeError unless the list has two elements.
\<close>

fun search_forward ::
  "nat \<Rightarrow> rnetwork \<Rightarrow> resistor list \<Rightarrow> node \<Rightarrow> (error + resistor list \<times> node) option" where
  "search_forward 0 g ret lastnode = None"
| "search_forward (Suc fuel) g ret lastnode =
     (case otherthan_node lastnode (res_n1 (last ret)) (res_n2 (last ret)) of
        Inl e \<Rightarrow> Some (Inl e)
      | Inr node \<Rightarrow>
          (case usage g node of
             Inl e \<Rightarrow> Some (Inl e)
           | Inr u \<Rightarrow>
               if u \<noteq> 2 \<or> node \<in> terminals g then Some (Inr (ret, node))
               else
                 (case map_of (nodes g) node of
                    None \<Rightarrow> Some (Inl KeyError)
                  | Some [y1, y2] \<Rightarrow>
                      (case otherthan_res (last ret) y1 y2 of
                         Inl e \<Rightarrow> Some (Inl e)
                       | Inr x \<Rightarrow> search_forward fuel g (ret @ [x]) node)
                  | Some _ \<Rightarrow> Some (Inl TypeError))))"

fun search_backward ::
  "nat \<Rightarrow> rnetwork \<Rightarrow> resistor list \<Rightarrow> node \<Rightarrow> (error + resistor list \<times> node) option" where
  "search_backward 0 g ret firstnode = None"
| "search_backward (Suc fuel) g ret firstnode =
     (case otherthan_node firstnode (res_n1 (hd ret)) (res_n2 (hd ret)) of
        Inl e \<Rightarrow> Some (Inl e)
      | Inr node \<Rightarrow>
          (case usage g node of
             Inl e \<Rightarrow> Some (Inl e)
           | Inr u \<Rightarrow>
               if u \<noteq> 2 \<or> node \<in> terminals g then Some (Inr (ret, node))
               else
                 (case map_of (nodes g) node of
                    None \<Rightarrow> Some (Inl KeyError)
                  | Some [y1, y2] \<Rightarrow>
                      (case otherthan_res (hd ret) y1 y2 of
                         Inl e \<Rightarrow> Some (Inl e)
                       | Inr x \<Rightarrow> search_backward fuel g (x # ret) node)
                  | Some _ \<Rightarrow> Some (Inl TypeError))))"

definition find_series ::
  "nat \<Rightarrow> rnetwork \<Rightarrow> node \<Rightarrow> (error + resistor list \<times> node \<times> node) option" where
  "find_series fuel g startnode =
     (case usage g startnode of
        Inl e \<Rightarrow> Some (Inl e)
      | Inr u \<Rightarrow>
          if u \<noteq> 2 \<or> startnode \<in> terminals g then Some (Inr ([], startnode, startnode))
          else
            (case map_of (nodes g) startnode of
               None \<Rightarrow> Some (Inl KeyError)
             | Some l \<Rightarrow>
                 (case search_forward fuel g l startnode of
                    None \<Rightarrow> None
                  | Some (Inl e) \<Rightarrow> Some (Inl e)
                  | Some (Inr (ret, lastnode)) \<Rightarrow>
                      (case search_backward fuel g ret startnode of
                         None \<Rightarrow> None
                       | Some (Inl e) \<Rightarrow> Some (Inl e)
                       | Some (Inr (ret', firstnode)) \<Rightarrow>
                           Some (Inr (ret', firstnode, lastnode))))))"

subsection \<open>join_parallel and join_series\<close>

text \<open>
  The loop of \<open>join_parallel\<close>: \<open>conductance += 1 / branch.r\<close>, then
  \<open>self.remove(branch)\<close>.  Division by zero raises ZeroDivisionError.
\<close>

fun join_parallel_loop ::
  "resistor list \<Rightarrow> rat \<Rightarrow> rnetwork \<Rightarrow> (error \<times> rnetwork) + (rat \<times> rnetwork)" where
  "join_parallel_loop [] conductance g = Inr (conductance, g)"
| "join_parallel_loop (branch # branches) conductance g =
     (if res_r branch = 0 then Inl (ZeroDivisionError, g)
      else
        (case remove g branch of
           Inl e \<Rightarrow> Inl e
         | Inr g' \<Rightarrow> join_parallel_loop branches (conductance + 1 / res_r branch) g'))"

text \<open>
  After the loop \<open>branch\<close> is the last element of \<open>branches\<close>.  With no branch at all
  the conductance is still 0 and \<open>1 / conductance\<close> raises ZeroDivisionError (it is
  evaluated before \<open>branch.n1\<close>).
\<close>

definition join_parallel :: "rnetwork \<Rightarrow> resistor list \<Rightarrow> outcome" where
  "join_parallel g branches =
     (if length branches = 1 then Inr g
      else
        (case join_parallel_loop branches 0 g of
           Inl e \<Rightarrow> Inl e
         | Inr (conductance, g') \<Rightarrow>
             if conductance = 0 then Inl (ZeroDivisionError, g')
             else Inr (add g' (Resistor (1 / conductance)
                                 (res_n1 (last branches)) (res_n2 (last branches))))))"

fun join_series_loop ::
  "resistor list \<Rightarrow> rat \<Rightarrow> rnetwork \<Rightarrow> (error \<times> rnetwork) + (rat \<times> rnetwork)" where
  "join_series_loop [] r g = Inr (r, g)"
| "join_series_loop (x # xs) r g =
     (case remove g x of
        Inl e \<Rightarrow> Inl e
      | Inr g' \<Rightarrow> join_series_loop xs (r + res_r x) g')"

definition join_series :: "rnetwork \<Rightarrow> resistor list \<Rightarrow> node \<Rightarrow> node \<Rightarrow> outcome" where
  "join_series g rs firstnode lastnode =
     (case join_series_loop rs 0 g of
        Inl e \<Rightarrow> Inl e
      | Inr (r, g') \<Rightarrow> Inr (add g' (Resistor r firstnode lastnode)))"

subsection \<open>Wye and Delta\<close>

definition wye_to_delta :: "rat \<Rightarrow> rat \<Rightarrow> rat \<Rightarrow> error + rat \<times> rat \<times> rat" where
  "wye_to_delta r1 r2 r3 =
     (let rp = r1 * r2 + r2 * r3 + r3 * r1
      in if r1 = 0 \<or> r2 = 0 \<or> r3 = 0 then Inl ZeroDivisionError
         else Inr (rp / r1, rp / r2, rp / r3))"

definition delta_to_wye :: "rat \<Rightarrow> rat \<Rightarrow> rat \<Rightarrow> error + rat \<times> rat \<times> rat" where
  "delta_to_wye r1 r2 r3 =
     (let rs = r1 + r2 + r3
      in if rs = 0 then Inl ZeroDivisionError
         else Inr (r2 * r3 / rs, r3 * r1 / rs, r1 * r2 / rs))"

text \<open>
  \<open>set(r1.nodes) & set(r2.nodes) & set(r3.nodes)\<close> as a duplicate-free list; the
  assertion wants exactly one element.
\<close>

definition common_nodes :: "resistor \<Rightarrow> resistor \<Rightarrow> resistor \<Rightarrow> node list" where
  "common_nodes r1 r2 r3 =
     filter (\<lambda>n. n \<in> set (res_nodes r2) \<and> n \<in> set (res_nodes r3)) (remdups (res_nodes r1))"

definition convert_wye_to_delta ::
  "rnetwork \<Rightarrow> resistor \<Rightarrow> resistor \<Rightarrow> resistor \<Rightarrow> outcome" where
  "convert_wye_to_delta g r1 r2 r3 =
     (if length (common_nodes r1 r2 r3) \<noteq> 1 then Inl (AssertionError, g)
      else
        let center = hd (common_nodes r1 r2 r3) in
        (case otherthan_node center (res_n1 r1) (res_n2 r1) of
           Inl e \<Rightarrow> Inl (e, g)
         | Inr a \<Rightarrow>
        (case otherthan_node center (res_n1 r2) (res_n2 r2) of
           Inl e \<Rightarrow> Inl (e, g)
         | Inr b \<Rightarrow>
        (case otherthan_node center (res_n1 r3) (res_n2 r3) of
           Inl e \<Rightarrow> Inl (e, g)
         | Inr c \<Rightarrow>
        (case wye_to_delta (res_r r1) (res_r r2) (res_r r3) of
           Inl e \<Rightarrow> Inl (e, g)
         | Inr (ra, rb, rc) \<Rightarrow>
        (case remove g r1 of
           Inl e \<Rightarrow> Inl e
         | Inr g1 \<Rightarrow>
        (case remove g1 r2 of
           Inl e \<Rightarrow> Inl e
         | Inr g2 \<Rightarrow>
        (case remove g2 r3 of
           Inl e \<Rightarrow> Inl e
         | Inr g3 \<Rightarrow>
             Inr (add (add (add g3 (Resistor ra b c)) (Resistor rb c a))
                    (Resistor rc a b))))))))))"

text \<open>
  \<open>free_node\<close>: the first integer from \<open>len(self.nodes)\<close> upwards that is not a key of
  \<open>self.nodes\<close>.  The search stops because the keys are finitely many.
\<close>

function free_node_from :: "node list \<Rightarrow> int \<Rightarrow> int" where
  "free_node_from ks ii = (if ii \<in> set ks then free_node_from ks (ii + 1) else ii)"
  by pat_completeness auto

termination
proof (relation "measure (\<lambda>(ks, ii). card {k \<in> set ks. ii \<le> k})")
  show "wf (measure (\<lambda>(ks, ii). card {k \<in> set ks. ii \<le> k}))"
    by simp
next
  fix ks :: "node list" and ii :: int
  assume mem: "ii \<in> set ks"
  have "ii \<in> {k \<in> set ks. ii \<le> k}" and "ii \<notin> {k \<in> set ks. ii + 1 \<le> k}"
    using mem by simp_all
  then have "{k \<in> set ks. ii + 1 \<le> k} \<subset> {k \<in> set ks. ii \<le> k}"
    by fastforce
  then have "card {k \<in> set ks. ii + 1 \<le> k} < card {k \<in> set ks. ii \<le> k}"
    by (intro psubset_card_mono) auto
  then show "((ks, ii + 1), (ks, ii)) \<in> measure (\<lambda>(ks, ii). card {k \<in> set ks. ii \<le> k})"
    by simp
qed

declare free_node_from.simps [simp del]

definition free_node :: "rnetwork \<Rightarrow> node" where
  "free_node g = free_node_from (map fst (nodes g)) (int (length (nodes g)))"

text \<open>\<open>next(iter(s))\<close> on a set given as a list: StopIteration when it is empty.\<close>

definition next_iter :: "'a list \<Rightarrow> error + 'a" where
  "next_iter s = (case s of [] \<Rightarrow> Inl StopIteration | x # _ \<Rightarrow> Inr x)"

text \<open>The set comprehension \<open>{node for r in (ra, rb, rc) for node in r.nodes}\<close>.\<close>

definition delta_nodes :: "resistor \<Rightarrow> resistor \<Rightarrow> resistor \<Rightarrow> node list" where
  "delta_nodes ra rb rc = remdups (res_nodes ra @ res_nodes rb @ res_nodes rc)"

text \<open>\<open>self.add(Resistor(r, center, next(iter(nodes - set(rx.nodes)))))\<close>.\<close>

definition add_spoke ::
  "rnetwork \<Rightarrow> rat \<Rightarrow> node \<Rightarrow> node list \<Rightarrow> resistor \<Rightarrow> outcome" where
  "add_spoke g r center ns rx =
     (case next_iter (filter (\<lambda>n. n \<notin> set (res_nodes rx)) ns) of
        Inl e \<Rightarrow> Inl (e, g)
      | Inr n \<Rightarrow> Inr (add g (Resistor r center n)))"

definition convert_delta_to_wye ::
  "rnetwork \<Rightarrow> resistor \<Rightarrow> resistor \<Rightarrow> resistor \<Rightarrow> outcome" where
  "convert_delta_to_wye g ra rb rc =
     (let center = free_node g in
      (case delta_to_wye (res_r ra) (res_r rb) (res_r rc) of
         Inl e \<Rightarrow> Inl (e, g)
       | Inr (r1, r2, r3) \<Rightarrow>
           if length (delta_nodes ra rb rc) \<noteq> 3 then Inl (AssertionError, g)
           else
      (case remove g ra of
         Inl e \<Rightarrow> Inl e
       | Inr g1 \<Rightarrow>
      (case remove g1 rb of
         Inl e \<Rightarrow> Inl e
       | Inr g2 \<Rightarrow>
      (case remove g2 rc of
         Inl e \<Rightarrow> Inl e
       | Inr g3 \<Rightarrow>
      (case add_spoke g3 r1 center (delta_nodes ra rb rc) ra of
         Inl e \<Rightarrow> Inl e
       | Inr g4 \<Rightarrow>
      (case add_spoke g4 r2 center (delta_nodes ra rb rc) rb of
         Inl e \<Rightarrow> Inl e
       | Inr g5 \<Rightarrow> add_spoke g5 r3 center (delta_nodes ra rb rc) rc)))))))"

subsection \<open>solve_series and solve_parallel\<close>

fun solve_series_loop ::
  "nat \<Rightarrow> node list \<Rightarrow> bool \<Rightarrow> rnetwork \<Rightarrow> ((error \<times> rnetwork) + (bool \<times> rnetwork)) option" where
  "solve_series_loop fuel [] found g = Some (Inr (found, g))"
| "solve_series_loop fuel (n # ns) found g =
     (if map_of (nodes g) n = None then solve_series_loop fuel ns found g
      else
        (case find_series fuel g n of
           None \<Rightarrow> None
         | Some (Inl e) \<Rightarrow> Some (Inl (e, g))
         | Some (Inr (rs, firstnode, lastnode)) \<Rightarrow>
             if rs = [] then solve_series_loop fuel ns found g
             else
               (case join_series g rs firstnode lastnode of
                  Inl e \<Rightarrow> Some (Inl e)
                | Inr g' \<Rightarrow> solve_series_loop fuel ns True g')))"

definition solve_series ::
  "nat \<Rightarrow> rnetwork \<Rightarrow> ((error \<times> rnetwork) + (bool \<times> rnetwork)) option" where
  "solve_series fuel g = solve_series_loop fuel (map fst (nodes g)) False g"

text \<open>
  \<open>solve_parallel\<close> walks a copy of the set \<open>self.resistors\<close>.  The iteration order of a
  Python set is fixed by the hashes; the model takes the order of insertion.
\<close>

fun solve_parallel_loop ::
  "resistor list \<Rightarrow> bool \<Rightarrow> rnetwork \<Rightarrow> (error \<times> rnetwork) + (bool \<times> rnetwork)" where
  "solve_parallel_loop [] found g = Inr (found, g)"
| "solve_parallel_loop (x # xs) found g =
     (if \<not> set_member x (resistors g) then solve_parallel_loop xs found g
      else
        (case find_parallel g (res_n1 x) (res_n2 x) of
           Inl e \<Rightarrow> Inl (e, g)
         | Inr rs \<Rightarrow>
             if length rs = 1 then solve_parallel_loop xs found g
             else
               (case join_parallel g rs of
                  Inl e \<Rightarrow> Inl e
                | Inr g' \<Rightarrow> solve_parallel_loop xs True g')))"

definition solve_parallel :: "rnetwork \<Rightarrow> (error \<times> rnetwork) + (bool \<times> rnetwork)" where
  "solve_parallel g = solve_parallel_loop (resistors g) False g"

subsection \<open>find_wye and find_delta\<close>

fun find_wye_loop :: "(node \<times> resistor list) list \<Rightarrow> node set \<Rightarrow> error + resistor list" where
  "find_wye_loop [] T = Inl ValueError"
| "find_wye_loop ((n, rs) # rest) T =
     (if length rs = 3 \<and> n \<notin> T then Inr (take 3 rs) else find_wye_loop rest T)"

definition find_wye :: "rnetwork \<Rightarrow> error + resistor list" where
  "find_wye g = find_wye_loop (nodes g) (terminals g)"

text \<open>
  The set comprehension \<open>nodes1\<close> (and \<open>nodes2\<close>) of \<open>find_delta\<close>, for the endpoint
  \<open>n\<close> of \<open>r1\<close>.  The test \<open>res_ != r1\<close> is the inequality of tuples (a named tuple
  inherits \<open>__ne__\<close> from \<open>tuple\<close>; only \<open>__eq__\<close> is overridden), hence structural.
\<close>

definition third_nodes :: "rnetwork \<Rightarrow> resistor \<Rightarrow> node \<Rightarrow> error + node list" where
  "third_nodes g r1 n =
     (case map_of (nodes g) n of
        None \<Rightarrow> Inl KeyError
      | Some l \<Rightarrow>
          Inr (remdups (concat (map (\<lambda>res. filter (\<lambda>node. node \<notin> set (res_nodes r1)) (res_nodes res))
                                    (filter (\<lambda>res. res \<noteq> r1) l)))))"

text \<open>
  \<open>next(iter(set(self.nodes[a]) & set(self.nodes[b])))\<close>: some resistor of the list at
  \<open>a\<close> that is equal to one of the list at \<open>b\<close>; the model takes the first one.
\<close>

definition shared_resistor :: "rnetwork \<Rightarrow> node \<Rightarrow> node \<Rightarrow> error + resistor" where
  "shared_resistor g a b =
     (case map_of (nodes g) a of
        None \<Rightarrow> Inl KeyError
      | Some la \<Rightarrow>
          (case map_of (nodes g) b of
             None \<Rightarrow> Inl KeyError
           | Some lb \<Rightarrow> next_iter (filter (\<lambda>x. set_member x lb) la)))"

text \<open>
  The randomness of \<open>find_delta\<close> is a parameter: \<open>shuffle\<close> stands for
  \<open>random.shuffle\<close> on the list of resistors and \<open>choice\<close> for \<open>random.choice\<close> on
  the list of candidate nodes.
\<close>

fun find_delta_loop ::
  "(node list \<Rightarrow> node) \<Rightarrow> rnetwork \<Rightarrow> resistor list \<Rightarrow> error + resistor \<times> resistor \<times> resistor" where
  "find_delta_loop choice g [] = Inl ValueError"
| "find_delta_loop choice g (r1 # rest) =
     (case third_nodes g r1 (res_n1 r1) of
        Inl e \<Rightarrow> Inl e
      | Inr nodes1 \<Rightarrow>
     (case third_nodes g r1 (res_n2 r1) of
        Inl e \<Rightarrow> Inl e
      | Inr nodes2 \<Rightarrow>
          let intersection = filter (\<lambda>n. n \<in> set nodes2) nodes1 in
          if intersection = [] then find_delta_loop choice g rest
          else
            let node = choice intersection in
            (case shared_resistor g (res_n1 r1) node of
               Inl e \<Rightarrow> Inl e
             | Inr r2 \<Rightarrow>
            (case shared_resistor g (res_n2 r1) node of
               Inl e \<Rightarrow> Inl e
             | Inr r3 \<Rightarrow> Inr (r1, r2, r3)))))"

definition find_delta ::
  "(resistor list \<Rightarrow> resistor list) \<Rightarrow> (node list \<Rightarrow> node) \<Rightarrow> rnetwork
     \<Rightarrow> error + resistor \<times> resistor \<times> resistor" where
  "find_delta shuffle choice g = find_delta_loop choice g (shuffle (resistors g))"

subsection \<open>solve\<close>

text \<open>\<open>while self.solve_parallel() or self.solve_series(): pass\<close>.\<close>

fun reduce_loop :: "nat \<Rightarrow> rnetwork \<Rightarrow> outcome option" where
  "reduce_loop 0 g = None"
| "reduce_loop (Suc fuel) g =
     (case solve_parallel g of
        Inl e \<Rightarrow> Some (Inl e)
      | Inr (True, g1) \<Rightarrow> reduce_loop fuel g1
      | Inr (False, g1) \<Rightarrow>
          (case solve_series fuel g1 of
             None \<Rightarrow> None
           | Some (Inl e) \<Rightarrow> Some (Inl e)
           | Some (Inr (True, g2)) \<Rightarrow> reduce_loop fuel g2
           | Some (Inr (False, g2)) \<Rightarrow> Some (Inr g2)))"

text \<open>The body of the \<open>try\<close>: \<open>rs = self.find_wye(); self.convert_wye_to_delta(*rs)\<close>.\<close>

definition try_wye :: "rnetwork \<Rightarrow> outcome" where
  "try_wye g =
     (case find_wye g of
        Inl e \<Rightarrow> Inl (e, g)
      | Inr [r1, r2, r3] \<Rightarrow> convert_wye_to_delta g r1 r2 r3
      | Inr _ \<Rightarrow> Inl (TypeError, g))"

text \<open>
  The outer \<open>while True\<close> of \<open>solve\<close>, with fuel.  \<open>k\<close> counts the calls of
  \<open>find_delta\<close> made so far, and the \<open>k\<close>-th call draws its random choices from
  \<open>shuffle k\<close> and \<open>choice k\<close>: two runs on the same network differ exactly in these
  two families.  Only ValueError is caught, and only when it comes out of the \<open>try\<close>
  block.
\<close>

fun solve_loop ::
  "nat \<Rightarrow> (nat \<Rightarrow> resistor list \<Rightarrow> resistor list) \<Rightarrow> (nat \<Rightarrow> node list \<Rightarrow> node) \<Rightarrow> nat
     \<Rightarrow> rnetwork \<Rightarrow> outcome option" where
  "solve_loop 0 shuffle choice k g = None"
| "solve_loop (Suc fuel) shuffle choice k g =
     (case prune_dangling g of
        Inl e \<Rightarrow> Some (Inl e)
      | Inr g1 \<Rightarrow>
     (case reduce_loop fuel g1 of
        None \<Rightarrow> None
      | Some (Inl e) \<Rightarrow> Some (Inl e)
      | Some (Inr g2) \<Rightarrow>
     (case try_wye g2 of
        Inr g3 \<Rightarrow> solve_loop fuel shuffle choice k g3
      | Inl (e, g3) \<Rightarrow>
          if e \<noteq> ValueError then Some (Inl (e, g3))
          else if set (map fst (nodes g3)) = terminals g3 then Some (Inr g3)
          else
            (case find_delta (shuffle k) (choice k) g3 of
               Inl e' \<Rightarrow> Some (Inl (e', g3))
             | Inr (ra, rb, rc) \<Rightarrow>
                 (case convert_delta_to_wye g3 ra rb rc of
                    Inl e' \<Rightarrow> Some (Inl e')
                  | Inr g4 \<Rightarrow> solve_loop fuel shuffle choice (Suc k) g4)))))"

definition solve ::
  "nat \<Rightarrow> (nat \<Rightarrow> resistor list \<Rightarrow> resistor list) \<Rightarrow> (nat \<Rightarrow> node list \<Rightarrow> node)
     \<Rightarrow> rnetwork \<Rightarrow> outcome option" where
  "solve fuel shuffle choice g = solve_loop fuel shuffle choice 0 g"

section \<open>Observations on a network\<close>

text \<open>
  The properties below are stated through these observations.  \<open>adj g n\<close> is the
  adjacency list of \<open>n\<close> (empty for a node that is no key of \<open>nodes\<close>);
  \<open>copies y xs\<close> counts the elements of \<open>xs\<close> that Python's \<open>==\<close> identifies
  with \<open>y\<close>; \<open>occ g n y\<close> is that count in the adjacency list of \<open>n\<close>;
  \<open>incid x n\<close> says how many ends of \<open>x\<close> lie on \<open>n\<close> (2 for a self-loop);
  \<open>inc_of xs y n\<close> adds up the ends on \<open>n\<close> of the resistors of \<open>xs\<close> equal to
  \<open>y\<close>; \<open>no_empty\<close> says that no key of \<open>nodes\<close> has an empty list.
\<close>

definition adj :: "rnetwork \<Rightarrow> node \<Rightarrow> resistor list" where
  "adj g n = (case map_of (nodes g) n of None \<Rightarrow> [] | Some l \<Rightarrow> l)"

definition copies :: "resistor \<Rightarrow> resistor list \<Rightarrow> nat" where
  "copies y xs = length (filter (res_eq y) xs)"

definition occ :: "rnetwork \<Rightarrow> node \<Rightarrow> resistor \<Rightarrow> nat" where
  "occ g n y = copies y (adj g n)"

definition incid :: "resistor \<Rightarrow> node \<Rightarrow> nat" where
  "incid x n = (if res_n1 x = n then 1 else 0) + (if res_n2 x = n then 1 else 0)"

definition inc_of :: "resistor list \<Rightarrow> resistor \<Rightarrow> node \<Rightarrow> nat" where
  "inc_of xs y n = sum_list (map (\<lambda>x. if res_eq y x then incid x n else 0) xs)"

definition no_empty :: "rnetwork \<Rightarrow> bool" where
  "no_empty g = list_all (\<lambda>p. snd p \<noteq> []) (nodes g)"

text \<open>
  \<open>present g xs\<close>: every resistor of \<open>xs\<close> stands in the adjacency lists of its
  endpoints at least as often as \<open>xs\<close> asks for it.  \<open>remove_all xs g\<close> removes the
  resistors of \<open>xs\<close> one after the other, as the loops of \<open>join_series\<close> and
  \<open>join_parallel\<close> and the three calls in the conversions do.
\<close>

definition present :: "rnetwork \<Rightarrow> resistor list \<Rightarrow> bool" where
  "present g xs =
     list_all (\<lambda>x. inc_of xs x (res_n1 x) \<le> occ g (res_n1 x) x
                 \<and> inc_of xs x (res_n2 x) \<le> occ g (res_n2 x) x) xs"

fun remove_all :: "resistor list \<Rightarrow> rnetwork \<Rightarrow> outcome" where
  "remove_all [] g = Inr g"
| "remove_all (x # xs) g =
     (case remove g x of Inl e \<Rightarrow> Inl e | Inr g' \<Rightarrow> remove_all xs g')"

text \<open>The network a call leaves behind, whether it returns or raises.\<close>

definition net_of :: "(error \<times> rnetwork) + rnetwork \<Rightarrow> rnetwork" where
  "net_of out = (case out of Inl (e, g) \<Rightarrow> g | Inr g \<Rightarrow> g)"

definition net_of_found :: "(error \<times> rnetwork) + (bool \<times> rnetwork) \<Rightarrow> rnetwork" where
  "net_of_found out = (case out of Inl (e, g) \<Rightarrow> g | Inr (found, g) \<Rightarrow> g)"

section \<open>Histories\<close>

text \<open>
  \<open>built\<close>: the networks that \<open>add\<close>, a \<open>remove\<close> that returns, \<open>add_terminal\<close>
  and \<open>remove_terminal\<close> make from the empty network.  \<open>built_simple\<close>: the same, but
  \<open>add\<close> is only called with a resistor that is no self-loop and is not equal to one
  in the set \<open>resistors\<close>.  \<open>history\<close>: the networks reached from the empty one by
  the primitive operations and by the reduction rules, each time the call returns.
\<close>

inductive built :: "rnetwork \<Rightarrow> bool" where
  built_init: "built RNetwork_init"
| built_add: "built g \<Longrightarrow> built (add g x)"
| built_remove: "built g \<Longrightarrow> remove g x = Inr g' \<Longrightarrow> built g'"
| built_add_terminal: "built g \<Longrightarrow> built (add_terminal g n)"
| built_remove_terminal: "built g \<Longrightarrow> built (remove_terminal g n)"

inductive built_simple :: "rnetwork \<Rightarrow> bool" where
  simple_init: "built_simple RNetwork_init"
| simple_add: "built_simple g \<Longrightarrow> res_n1 x \<noteq> res_n2 x \<Longrightarrow> \<not> set_member x (resistors g)
     \<Longrightarrow> built_simple (add g x)"
| simple_remove: "built_simple g \<Longrightarrow> remove g x = Inr g' \<Longrightarrow> built_simple g'"
| simple_add_terminal: "built_simple g \<Longrightarrow> built_simple (add_terminal g n)"
| simple_remove_terminal: "built_simple g \<Longrightarrow> built_simple (remove_terminal g n)"

inductive history :: "rnetwork \<Rightarrow> bool" where
  h_init: "history RNetwork_init"
| h_add: "history g \<Longrightarrow> history (add g x)"
| h_remove: "history g \<Longrightarrow> remove g x = Inr g' \<Longrightarrow> history g'"
| h_add_terminal: "history g \<Longrightarrow> history (add_terminal g n)"
| h_remove_terminal: "history g \<Longrightarrow> history (remove_terminal g n)"
| h_prune_dangling: "history g \<Longrightarrow> prune_dangling g = Inr g' \<Longrightarrow> history g'"
| h_join_series: "history g \<Longrightarrow> join_series g rs firstnode lastnode = Inr g' \<Longrightarrow> history g'"
| h_join_parallel: "history g \<Longrightarrow> join_parallel g bs = Inr g' \<Longrightarrow> history g'"
| h_solve_series: "history g \<Longrightarrow> solve_series fuel g = Some (Inr (found, g')) \<Longrightarrow> history g'"
| h_solve_parallel: "history g \<Longrightarrow> solve_parallel g = Inr (found, g') \<Longrightarrow> history g'"
| h_wye_to_delta: "history g \<Longrightarrow> convert_wye_to_delta g r1 r2 r3 = Inr g' \<Longrightarrow> history g'"
| h_delta_to_wye: "history g \<Longrightarrow> convert_delta_to_wye g ra rb rc = Inr g' \<Longrightarrow> history g'"

section \<open>Networks used as examples\<close>

text \<open>Two equal resistors between the nodes 0 and 1 (the first case of \<open>test_solve\<close>).\<close>

definition dup_net :: rnetwork where
  "dup_net = add (add RNetwork_init (Resistor 2 0 1)) (Resistor 2 0 1)"

text \<open>A ring of three resistors, no terminal.\<close>

definition ring_net :: rnetwork where
  "ring_net = add (add (add RNetwork_init (Resistor 1 0 1)) (Resistor 2 1 2)) (Resistor 3 2 0)"

text \<open>
  A triangle on 0, 1, 2 and a resistor from the terminal 3 to the node 4, which is
  removed again in the history considered.
\<close>

definition reuse_net :: rnetwork where
  "reuse_net = add_terminal (add (add (add (add RNetwork_init
     (Resistor 1 0 1)) (Resistor 1 1 2)) (Resistor 1 2 0)) (Resistor 1 3 4)) 3"

text \<open>Two terminals, each joined to one dangling node of its own.\<close>

definition stranded_net :: rnetwork where
  "stranded_net =
     add_terminal (add_terminal (add (add RNetwork_init (Resistor 1 0 2)) (Resistor 1 1 3)) 0) 1"

text \<open>One terminal joined to one dangling node.\<close>

definition lone_terminal_net :: rnetwork where
  "lone_terminal_net = add_terminal (add RNetwork_init (Resistor 1 0 1)) 0"

text \<open>
  The complete network on the terminals 0, 1, 2, 3 (1 Ohm each) and one more resistor
  from the terminal 4 to the dangling node 5.
\<close>

definition k4_net :: rnetwork where
  "k4_net = add_terminal (add_terminal (add_terminal (add_terminal (add_terminal
     (add (add (add (add (add (add (add RNetwork_init
        (Resistor 1 0 1)) (Resistor 1 0 2)) (Resistor 1 0 3)) (Resistor 1 1 2)) (Resistor 1 1 3))
        (Resistor 1 2 3)) (Resistor 1 4 5)) 0) 1) 2) 3) 4"

text \<open>
  Two outcomes of the random draws of \<open>find_delta\<close>: the shuffle leaves the list as
  it is (a permutation), and the choice takes the first or the last candidate.
\<close>

definition keep_order :: "nat \<Rightarrow> resistor list \<Rightarrow> resistor list" where
  "keep_order k xs = xs"

definition choose_first :: "nat \<Rightarrow> node list \<Rightarrow> node" where
  "choose_first k ns = hd ns"

definition choose_last :: "nat \<Rightarrow> node list \<Rightarrow> node" where
  "choose_last k ns = last ns"

section \<open>Basic facts\<close>

lemma res_eq_refl [simp]: "res_eq x x"
  by (simp add: res_eq_def)

lemma res_eq_sym: "res_eq x y \<Longrightarrow> res_eq y x"
  by (auto simp: res_eq_def)

lemma res_eq_trans: "res_eq x y \<Longrightarrow> res_eq y z \<Longrightarrow> res_eq x z"
  by (auto simp: res_eq_def)

lemma res_eq_iff:
  "res_eq a b \<longleftrightarrow> res_r a = res_r b \<and>
     (res_n1 a = res_n1 b \<and> res_n2 a = res_n2 b \<or> res_n1 a = res_n2 b \<and> res_n2 a = res_n1 b)"
  unfolding res_eq_def res_nodes_def by (simp add: doubleton_eq_iff)

lemma res_eq_incid: "res_eq x y \<Longrightarrow> incid x n = incid y n"
  by (cases x; cases y) (auto simp: res_eq_iff incid_def)

lemma map_of_setdefault_append:
  "map_of (setdefault_append n x d) =
     (map_of d)(n \<mapsto> (case map_of d n of None \<Rightarrow> [] | Some l \<Rightarrow> l) @ [x])"
  by (simp add: setdefault_append_def update_conv')

lemma adj_add:
  "adj (add g x) n =
     adj g n @ (if n = res_n1 x then [x] else []) @ (if n = res_n2 x then [x] else [])"
  by (auto simp: adj_def add_def map_of_setdefault_append split: option.splits)

lemma terminals_add [simp]: "terminals (add g x) = terminals g"
  by (simp add: add_def)

lemma resistors_add [simp]: "resistors (add g x) = set_add x (resistors g)"
  by (simp add: add_def)

lemma inc_of_Nil [simp]: "inc_of [] y n = 0"
  by (simp add: inc_of_def)

lemma inc_of_Cons: "inc_of (x # xs) y n = (if res_eq y x then incid x n else 0) + inc_of xs y n"
  by (simp add: inc_of_def)

lemma inc_of_append: "inc_of (xs @ ys) y n = inc_of xs y n + inc_of ys y n"
  by (simp add: inc_of_def)

lemma occ_add: "occ (add g x) n y = occ g n y + inc_of [x] y n"
  by (cases "n = res_n1 x"; cases "n = res_n2 x"; cases "res_eq y x")
     (simp_all add: occ_def copies_def adj_add inc_of_def incid_def)

lemma length_adj_add: "length (adj (add g x) n) = length (adj g n) + incid x n"
  by (auto simp: adj_add incid_def)

lemma list_remove_None: "list_remove x l = None \<longleftrightarrow> copies x l = 0"
  by (induction l) (auto simp: copies_def dest: res_eq_sym)

lemma list_remove_copies:
  "list_remove x l = Some l' \<Longrightarrow> copies y l' + (if res_eq y x then 1 else 0) = copies y l"
proof (induction l arbitrary: l')
  case Nil
  then show ?case by simp
next
  case (Cons a l)
  show ?case
  proof (cases "res_eq a x")
    case True
    with Cons.prems have "l' = l" by simp
    moreover have "res_eq y a \<longleftrightarrow> res_eq y x"
      using True by (meson res_eq_sym res_eq_trans)
    ultimately show ?thesis by (simp add: copies_def)
  next
    case False
    with Cons.prems obtain l2 where l2: "list_remove x l = Some l2" and l': "l' = a # l2"
      by auto
    from Cons.IH [OF l2] show ?thesis
      by (simp add: copies_def l')
  qed
qed

lemma list_remove_length: "list_remove x l = Some l' \<Longrightarrow> Suc (length l') = length l"
  by (induction l arbitrary: l') (auto split: if_splits)

lemma remove_from_cases:
  "remove_from n x g =
     (case list_remove x (adj g n) of
        None \<Rightarrow> Inl (if map_of (nodes g) n = None then KeyError else ValueError, g)
      | Some l' \<Rightarrow>
          Inr (g\<lparr>nodes := if l' = [] then AList.delete n (nodes g)
                           else AList.update n l' (nodes g)\<rparr>))"
  by (auto simp: remove_from_def adj_def split: option.splits)

lemma adj_remove_from:
  "remove_from n x g = Inr g' \<Longrightarrow>
     \<exists>l'. list_remove x (adj g n) = Some l' \<and> adj g' = (adj g)(n := l')
         \<and> terminals g' = terminals g \<and> resistors g' = resistors g"
  by (auto simp: remove_from_cases adj_def fun_eq_iff update_conv' delete_conv'
      split: option.splits if_splits)

lemma adj_resistors_update [simp]: "adj (g\<lparr>resistors := s\<rparr>) = adj g"
  by (simp add: adj_def fun_eq_iff)

lemma remove_Inr_D:
  assumes "remove g x = Inr g'"
  shows "\<exists>g1 l1 l2. list_remove x (adj g (res_n1 x)) = Some l1
           \<and> adj g1 = (adj g)(res_n1 x := l1)
           \<and> list_remove x (adj g1 (res_n2 x)) = Some l2
           \<and> adj g' = (adj g1)(res_n2 x := l2)
           \<and> terminals g' = terminals g
           \<and> resistors g' = set_discard x (resistors g)"
proof -
  from assms obtain g1 g2 where
    s1: "remove_from (res_n1 x) x g = Inr g1" and
    s2: "remove_from (res_n2 x) x g1 = Inr g2" and
    g': "g' = g2\<lparr>resistors := set_discard x (resistors g2)\<rparr>"
    by (auto simp: remove_def split: sum.splits)
  from adj_remove_from [OF s1] obtain l1 where
    l1: "list_remove x (adj g (res_n1 x)) = Some l1" "adj g1 = (adj g)(res_n1 x := l1)"
      "terminals g1 = terminals g" "resistors g1 = resistors g"
    by blast
  from adj_remove_from [OF s2] obtain l2 where
    l2: "list_remove x (adj g1 (res_n2 x)) = Some l2" "adj g2 = (adj g1)(res_n2 x := l2)"
      "terminals g2 = terminals g1" "resistors g2 = resistors g1"
    by blast
  have "adj g' = (adj g1)(res_n2 x := l2)" "terminals g' = terminals g"
    "resistors g' = set_discard x (resistors g)"
    using l1 l2 by (simp_all add: g')
  with l1(1,2) l2(1) show ?thesis by blast
qed

lemma occ_remove:
  assumes "remove g x = Inr g'"
  shows "occ g' n y + inc_of [x] y n = occ g n y"
proof -
  from remove_Inr_D [OF assms] obtain g1 l1 l2 where
    l1: "list_remove x (adj g (res_n1 x)) = Some l1" and
    g1: "adj g1 = (adj g)(res_n1 x := l1)" and
    l2: "list_remove x (adj g1 (res_n2 x)) = Some l2" and
    g': "adj g' = (adj g1)(res_n2 x := l2)"
    by blast
  have c1: "copies y l1 + (if res_eq y x then 1 else 0) = copies y (adj g (res_n1 x))"
    by (rule list_remove_copies [OF l1])
  have c2: "copies y l2 + (if res_eq y x then 1 else 0) = copies y (adj g1 (res_n2 x))"
    by (rule list_remove_copies [OF l2])
  show ?thesis
  proof (cases "res_n1 x = res_n2 x")
    case True
    with c1 c2 g1 g' show ?thesis
      by (cases "n = res_n1 x"; cases "res_eq y x")
         (simp_all add: occ_def inc_of_def incid_def)
  next
    case False
    with c1 c2 g1 g' show ?thesis
      by (cases "n = res_n1 x"; cases "n = res_n2 x"; cases "res_eq y x")
         (simp_all add: occ_def inc_of_def incid_def)
  qed
qed

lemma length_adj_remove:
  assumes "remove g x = Inr g'"
  shows "length (adj g' n) + incid x n = length (adj g n)"
proof -
  from remove_Inr_D [OF assms] obtain g1 l1 l2 where
    l1: "list_remove x (adj g (res_n1 x)) = Some l1" and
    g1: "adj g1 = (adj g)(res_n1 x := l1)" and
    l2: "list_remove x (adj g1 (res_n2 x)) = Some l2" and
    g': "adj g' = (adj g1)(res_n2 x := l2)"
    by blast
  have c1: "Suc (length l1) = length (adj g (res_n1 x))"
    by (rule list_remove_length [OF l1])
  have c2: "Suc (length l2) = length (adj g1 (res_n2 x))"
    by (rule list_remove_length [OF l2])
  show ?thesis
  proof (cases "res_n1 x = res_n2 x")
    case True
    with c1 c2 g1 g' show ?thesis
      by (cases "n = res_n1 x") (simp_all add: incid_def)
  next
    case False
    with c1 c2 g1 g' show ?thesis
      by (cases "n = res_n1 x"; cases "n = res_n2 x") (simp_all add: incid_def)
  qed
qed

lemma terminals_remove: "remove g x = Inr g' \<Longrightarrow> terminals g' = terminals g"
  using remove_Inr_D by blast

lemma resistors_remove: "remove g x = Inr g' \<Longrightarrow> resistors g' = set_discard x (resistors g)"
  using remove_Inr_D by blast

lemma remove_succeeds:
  assumes "\<And>n. incid x n \<le> occ g n x"
  shows "\<exists>g'. remove g x = Inr g'"
proof -
  have "0 < incid x (res_n1 x)" by (simp add: incid_def)
  with assms [of "res_n1 x"] have "copies x (adj g (res_n1 x)) \<noteq> 0"
    by (simp add: occ_def)
  then obtain l1 where l1: "list_remove x (adj g (res_n1 x)) = Some l1"
    using list_remove_None by fastforce
  then obtain g1 where s1: "remove_from (res_n1 x) x g = Inr g1"
    by (simp add: remove_from_cases)
  from adj_remove_from [OF s1] l1 have g1: "adj g1 = (adj g)(res_n1 x := l1)"
    by auto
  have "copies x (adj g1 (res_n2 x)) \<noteq> 0"
  proof (cases "res_n1 x = res_n2 x")
    case True
    then have "incid x (res_n1 x) = 2" by (simp add: incid_def)
    with assms [of "res_n1 x"] have "2 \<le> copies x (adj g (res_n1 x))"
      by (simp add: occ_def)
    moreover from list_remove_copies [OF l1, of x]
    have "copies x l1 + 1 = copies x (adj g (res_n1 x))" by simp
    ultimately show ?thesis using True g1 by simp
  next
    case False
    have "0 < incid x (res_n2 x)" by (simp add: incid_def)
    with assms [of "res_n2 x"] have "copies x (adj g (res_n2 x)) \<noteq> 0"
      by (simp add: occ_def)
    with False g1 show ?thesis by simp
  qed
  then obtain l2 where "list_remove x (adj g1 (res_n2 x)) = Some l2"
    using list_remove_None by fastforce
  then obtain g2 where "remove_from (res_n2 x) x g1 = Inr g2"
    by (simp add: remove_from_cases)
  with s1 show ?thesis by (simp add: remove_def)
qed

lemma set_member_set_add: "set_member y (set_add x s) \<longleftrightarrow> set_member y s \<or> res_eq x y"
  by (auto simp: set_member_def set_add_def list_ex_iff intro: res_eq_trans)

lemma set_member_set_discard:
  "set_member y (set_discard x s) \<longleftrightarrow> set_member y s \<and> \<not> res_eq x y"
  by (auto simp: set_member_def set_discard_def list_ex_iff
      intro: res_eq_trans res_eq_sym dest: res_eq_sym)

lemma set_member_cong: "res_eq x y \<Longrightarrow> set_member x s = set_member y s"
  by (auto simp: set_member_def list_ex_iff intro: res_eq_trans res_eq_sym)

lemma copies_cong: "res_eq x y \<Longrightarrow> copies x l = copies y l"
proof -
  assume "res_eq x y"
  then have "res_eq x = res_eq y"
    by (auto simp: fun_eq_iff intro: res_eq_trans res_eq_sym)
  then show ?thesis by (simp add: copies_def)
qed

lemma occ_cong: "res_eq x y \<Longrightarrow> occ g n x = occ g n y"
  by (simp add: occ_def copies_cong)

lemma inc_of_cong: "res_eq x y \<Longrightarrow> inc_of xs x n = inc_of xs y n"
proof -
  assume "res_eq x y"
  then have "res_eq x = res_eq y"
    by (auto simp: fun_eq_iff intro: res_eq_trans res_eq_sym)
  then show ?thesis by (simp add: inc_of_def)
qed

lemma inc_of_zero:
  "\<not> list_ex (\<lambda>x. res_eq y x \<and> 0 < incid x n) xs \<Longrightarrow> inc_of xs y n = 0"
  by (induction xs) (auto simp: inc_of_Cons)

lemma inc_of_positive_D:
  "0 < inc_of xs y n \<Longrightarrow> \<exists>x \<in> set xs. res_eq y x \<and> (n = res_n1 x \<or> n = res_n2 x)"
proof (induction xs)
  case Nil
  then show ?case by simp
next
  case (Cons a xs)
  then show ?case
    by (cases "res_eq y a"; cases "n = res_n1 a"; cases "n = res_n2 a")
       (auto simp: inc_of_Cons incid_def)
qed

lemma present_D:
  assumes "present g xs"
  shows "inc_of xs y n \<le> occ g n y"
proof (cases "0 < inc_of xs y n")
  case False
  then show ?thesis by simp
next
  case True
  from inc_of_positive_D [OF True] obtain x where
    x: "x \<in> set xs" "res_eq y x" "n = res_n1 x \<or> n = res_n2 x"
    by blast
  from assms x(1) have
    "inc_of xs x (res_n1 x) \<le> occ g (res_n1 x) x" "inc_of xs x (res_n2 x) \<le> occ g (res_n2 x) x"
    by (simp_all add: present_def list_all_iff)
  with x(3) have "inc_of xs x n \<le> occ g n x" by auto
  with x(2) show ?thesis
    by (simp add: inc_of_cong [OF x(2)] occ_cong [OF x(2)])
qed

lemma remove_list_step:
  assumes "\<And>n y. inc_of (x # xs) y n \<le> occ g n y"
  shows "\<exists>g'. remove g x = Inr g' \<and> (\<forall>n y. inc_of xs y n \<le> occ g' n y)"
proof -
  have "incid x n \<le> occ g n x" for n
    using assms [of x n] by (simp add: inc_of_Cons)
  then obtain g' where g': "remove g x = Inr g'"
    using remove_succeeds by blast
  have "inc_of xs y n \<le> occ g' n y" for n y
    using assms [of y n] occ_remove [OF g', of n y] by (simp add: inc_of_Cons)
  with g' show ?thesis by blast
qed

lemma remove_all_succeeds:
  "(\<And>n y. inc_of xs y n \<le> occ g n y) \<Longrightarrow> \<exists>g'. remove_all xs g = Inr g'"
proof (induction xs arbitrary: g)
  case Nil
  then show ?case by simp
next
  case (Cons x xs)
  from remove_list_step [of x xs g] Cons.prems obtain g1 where
    g1: "remove g x = Inr g1" "\<And>n y. inc_of xs y n \<le> occ g1 n y"
    by blast
  from Cons.IH [of g1] g1(2) obtain g' where "remove_all xs g1 = Inr g'"
    by blast
  with g1(1) show ?case by simp
qed

lemma remove_all_result:
  "remove_all xs g = Inr g' \<Longrightarrow>
     (\<forall>n y. occ g' n y + inc_of xs y n = occ g n y)
     \<and> (\<forall>n. length (adj g' n) + sum_list (map (\<lambda>x. incid x n) xs) = length (adj g n))
     \<and> terminals g' = terminals g
     \<and> (\<forall>y. set_member y (resistors g') \<longleftrightarrow>
              set_member y (resistors g) \<and> \<not> list_ex (\<lambda>x. res_eq x y) xs)"
proof (induction xs arbitrary: g)
  case Nil
  then show ?case by simp
next
  case (Cons x xs)
  from Cons.prems obtain g1 where
    g1: "remove g x = Inr g1" and rest: "remove_all xs g1 = Inr g'"
    by (auto split: sum.splits)
  note ih = Cons.IH [OF rest]
  have ih_occ: "occ g' n y + inc_of xs y n = occ g1 n y" for n y
    using ih by blast
  have ih_len: "length (adj g' n) + sum_list (map (\<lambda>x. incid x n) xs) = length (adj g1 n)" for n
    using ih by blast
  have ih_mem: "set_member y (resistors g') \<longleftrightarrow>
      set_member y (resistors g1) \<and> \<not> list_ex (\<lambda>x. res_eq x y) xs" for y
    using ih by blast
  have occ: "occ g' n y + inc_of (x # xs) y n = occ g n y" for n y
    using ih_occ [of n y] occ_remove [OF g1, of n y] by (simp add: inc_of_Cons)
  have len: "length (adj g' n) + sum_list (map (\<lambda>x. incid x n) (x # xs)) = length (adj g n)" for n
    using ih_len [of n] length_adj_remove [OF g1, of n] by simp
  have mem: "set_member y (resistors g') \<longleftrightarrow>
      set_member y (resistors g) \<and> \<not> list_ex (\<lambda>x. res_eq x y) (x # xs)" for y
    using ih_mem [of y] by (auto simp: resistors_remove [OF g1] set_member_set_discard)
  from ih have "terminals g' = terminals g"
    by (simp add: terminals_remove [OF g1])
  with occ len mem show ?case by blast
qed

lemma join_series_loop_eq:
  "join_series_loop xs r g =
     (case remove_all xs g of
        Inl e \<Rightarrow> Inl e
      | Inr g' \<Rightarrow> Inr (r + sum_list (map res_r xs), g'))"
  by (induction xs arbitrary: r g) (auto split: sum.splits simp: add.assoc)

lemma join_parallel_loop_eq:
  "list_all (\<lambda>x. res_r x \<noteq> 0) xs \<Longrightarrow>
   join_parallel_loop xs c g =
     (case remove_all xs g of
        Inl e \<Rightarrow> Inl e
      | Inr g' \<Rightarrow> Inr (c + sum_list (map (\<lambda>x. 1 / res_r x) xs), g'))"
  by (induction xs arbitrary: c g) (auto split: sum.splits simp: add.assoc)

lemma present_remove_all:
  assumes "present g xs"
  shows "\<exists>g'. remove_all xs g = Inr g'
     \<and> (\<forall>n y. occ g' n y + inc_of xs y n = occ g n y)
     \<and> (\<forall>n. length (adj g' n) + sum_list (map (\<lambda>x. incid x n) xs) = length (adj g n))
     \<and> terminals g' = terminals g
     \<and> (\<forall>y. set_member y (resistors g') \<longleftrightarrow>
              set_member y (resistors g) \<and> \<not> list_ex (\<lambda>x. res_eq x y) xs)"
proof -
  from remove_all_succeeds [of xs g] present_D [OF assms]
  obtain g' where "remove_all xs g = Inr g'" by blast
  with remove_all_result [OF this] show ?thesis by blast
qed

lemma sum_list_pos_rat:
  "xs \<noteq> [] \<Longrightarrow> list_all (\<lambda>x. 0 < f x) xs \<Longrightarrow> (0::rat) < sum_list (map f xs)"
proof (induction xs)
  case Nil
  then show ?case by simp
next
  case (Cons a xs)
  then show ?case
    by (cases "xs = []") (auto intro: add_pos_pos)
qed

lemma list_all_update:
  "list_all P d \<Longrightarrow> P (k, v) \<Longrightarrow> list_all P (AList.update k v d)"
  by (induction d) auto

lemma list_all_delete: "list_all P d \<Longrightarrow> list_all P (AList.delete k d)"
  by (simp add: AList.delete_eq list_all_iff)

lemma no_empty_add: "no_empty g \<Longrightarrow> no_empty (add g x)"
  by (simp add: no_empty_def add_def setdefault_append_def list_all_update)

lemma no_empty_remove_from: "no_empty g \<Longrightarrow> remove_from n x g = Inr g' \<Longrightarrow> no_empty g'"
  by (auto simp: no_empty_def remove_from_def list_all_update list_all_delete
      split: option.splits if_splits)

lemma no_empty_remove: "no_empty g \<Longrightarrow> remove g x = Inr g' \<Longrightarrow> no_empty g'"
  by (auto simp: remove_def no_empty_def split: sum.splits
      dest!: no_empty_remove_from [unfolded no_empty_def, rotated])

lemma no_empty_remove_all: "no_empty g \<Longrightarrow> remove_all xs g = Inr g' \<Longrightarrow> no_empty g'"
  by (induction xs arbitrary: g) (auto split: sum.splits dest: no_empty_remove)

lemma key_iff_map_of: "n \<in> fst ` set (nodes g) \<longleftrightarrow> map_of (nodes g) n \<noteq> None"
  by (simp add: map_of_eq_None_iff)

lemma adj_nonempty_key: "adj g n \<noteq> [] \<Longrightarrow> n \<in> fst ` set (nodes g)"
  unfolding key_iff_map_of by (cases "map_of (nodes g) n") (simp_all add: adj_def)

lemma key_iff_adj: "no_empty g \<Longrightarrow> n \<in> fst ` set (nodes g) \<longleftrightarrow> adj g n \<noteq> []"
proof
  assume ne: "no_empty g" and "n \<in> fst ` set (nodes g)"
  then obtain l where l: "map_of (nodes g) n = Some l"
    unfolding key_iff_map_of by blast
  then have "(n, l) \<in> set (nodes g)" by (rule map_of_SomeD)
  with ne have "l \<noteq> []" by (auto simp: no_empty_def list_all_iff)
  with l show "adj g n \<noteq> []" by (simp add: adj_def)
next
  assume "adj g n \<noteq> []"
  then show "n \<in> fst ` set (nodes g)" by (rule adj_nonempty_key)
qed

lemma wye_arm:
  "set (res_nodes x) = {c, a} \<Longrightarrow>
     res_n1 x = c \<and> res_n2 x = a \<or> res_n1 x = a \<and> res_n2 x = c"
  by (auto simp: res_nodes_def doubleton_eq_iff)

lemma otherthan_arm:
  "set (res_nodes x) = {c, a} \<Longrightarrow> otherthan_node c (res_n1 x) (res_n2 x) = Inr a"
  using wye_arm [of x c a] by (auto simp: otherthan_node_def)

lemma incid_arm: "set (res_nodes x) = {c, a} \<Longrightarrow> c \<noteq> a \<Longrightarrow> incid x c = 1"
  using wye_arm [of x c a] by (auto simp: incid_def)

lemma common_nodes_wye:
  assumes "set (res_nodes r1) = {c, a1}" "set (res_nodes r2) = {c, a2}"
    "set (res_nodes r3) = {c, a3}" "distinct [c, a1, a2, a3]"
  shows "common_nodes r1 r2 r3 = [c]"
proof -
  from assms(4) have ne: "c \<noteq> a1" "a1 \<noteq> a2" by auto
  from wye_arm [OF assms(1)] ne show ?thesis
    unfolding common_nodes_def assms(2,3)
    by (auto simp: res_nodes_def)
qed

lemma convert_wye_to_delta_eq:
  assumes "set (res_nodes r1) = {c, a1}" "set (res_nodes r2) = {c, a2}"
    "set (res_nodes r3) = {c, a3}" "distinct [c, a1, a2, a3]"
    "res_r r1 \<noteq> 0" "res_r r2 \<noteq> 0" "res_r r3 \<noteq> 0"
  shows "convert_wye_to_delta g r1 r2 r3 =
     (case remove_all [r1, r2, r3] g of
        Inl e \<Rightarrow> Inl e
      | Inr g3 \<Rightarrow>
          Inr (add (add (add g3
            (Resistor ((res_r r1 * res_r r2 + res_r r2 * res_r r3 + res_r r3 * res_r r1) / res_r r1) a2 a3))
            (Resistor ((res_r r1 * res_r r2 + res_r r2 * res_r r3 + res_r r3 * res_r r1) / res_r r2) a3 a1))
            (Resistor ((res_r r1 * res_r r2 + res_r r2 * res_r r3 + res_r r3 * res_r r1) / res_r r3) a1 a2)))"
  using assms(5-7)
  by (simp add: convert_wye_to_delta_def common_nodes_wye [OF assms(1-4)]
      otherthan_arm [OF assms(1)] otherthan_arm [OF assms(2)] otherthan_arm [OF assms(3)]
      wye_to_delta_def Let_def split: sum.splits)

lemmas eval_defs = inc_of_def incid_def occ_def copies_def adj_def add_def RNetwork_init_def
  setdefault_append_def res_eq_iff set_add_def set_member_def no_empty_def

lemma free_node_from_spec:
  "free_node_from ks ii \<notin> set ks \<and> ii \<le> free_node_from ks ii
   \<and> (\<forall>j. ii \<le> j \<and> j < free_node_from ks ii \<longrightarrow> j \<in> set ks)"
proof (induction ks ii rule: free_node_from.induct)
  case (1 ks ii)
  show ?case
  proof (cases "ii \<in> set ks")
    case True
    then have eq: "free_node_from ks ii = free_node_from ks (ii + 1)"
      by (simp add: free_node_from.simps [of ks ii])
    from "1.IH" [OF True] have ih:
      "free_node_from ks (ii + 1) \<notin> set ks" "ii + 1 \<le> free_node_from ks (ii + 1)"
      "\<And>j. ii + 1 \<le> j \<Longrightarrow> j < free_node_from ks (ii + 1) \<Longrightarrow> j \<in> set ks"
      by auto
    have "j \<in> set ks" if "ii \<le> j" "j < free_node_from ks ii" for j
    proof (cases "j = ii")
      case True
      with \<open>ii \<in> set ks\<close> show ?thesis by simp
    next
      case False
      with that have "ii + 1 \<le> j" by simp
      with that(2) ih(3) [of j] show ?thesis by (simp add: eq)
    qed
    with ih(1,2) show ?thesis by (simp add: eq)
  next
    case False
    then have "free_node_from ks ii = ii"
      by (simp add: free_node_from.simps [of ks ii])
    with False show ?thesis by auto
  qed
qed

lemma free_node_fresh: "free_node g \<notin> fst ` set (nodes g)"
  using free_node_from_spec [of "map fst (nodes g)" "int (length (nodes g))"]
  by (simp add: free_node_def)

lemma adj_free_node: "adj g (free_node g) = []"
  using free_node_fresh [of g] adj_nonempty_key [of g "free_node g"] by blast

lemma remove_all_keys:
  assumes "remove_all xs g = Inr g'" and "x \<in> set xs"
  shows "res_n1 x \<in> fst ` set (nodes g)" "res_n2 x \<in> fst ` set (nodes g)"
proof -
  from remove_all_result [OF assms(1)] have
    occ: "\<And>n y. occ g' n y + inc_of xs y n = occ g n y"
    by blast
  have pos: "0 < inc_of xs x n" if "n = res_n1 x \<or> n = res_n2 x" for n
    using assms(2) that
  proof (induction xs)
    case Nil
    then show ?case by simp
  next
    case (Cons a xs)
    then show ?case
      by (cases "x = a") (auto simp: inc_of_Cons incid_def)
  qed
  have "adj g n \<noteq> []" if "n = res_n1 x \<or> n = res_n2 x" for n
  proof -
    from pos [OF that] occ [of n x] have "0 < occ g n x" by simp
    then show ?thesis by (auto simp: occ_def copies_def)
  qed
  then show "res_n1 x \<in> fst ` set (nodes g)" "res_n2 x \<in> fst ` set (nodes g)"
    by (auto intro: adj_nonempty_key)
qed

lemma remove_all_adj_empty:
  assumes "remove_all xs g = Inr g'" and "adj g n = []"
  shows "adj g' n = []"
proof -
  from remove_all_result [OF assms(1)] have
    "length (adj g' n) + sum_list (map (\<lambda>x. incid x n) xs) = length (adj g n)"
    by blast
  with assms(2) show ?thesis by simp
qed

lemma add_spoke_Inr_D:
  "add_spoke g r c ns rx = Inr g' \<Longrightarrow>
     \<exists>a. a \<in> set ns \<and> a \<notin> set (res_nodes rx) \<and> g' = add g (Resistor r c a)"
proof -
  assume asm: "add_spoke g r c ns rx = Inr g'"
  then obtain a rest where
    f: "filter (\<lambda>n. n \<notin> set (res_nodes rx)) ns = a # rest" and g': "g' = add g (Resistor r c a)"
    by (auto simp: add_spoke_def next_iter_def split: list.splits)
  have "a \<in> set (filter (\<lambda>n. n \<notin> set (res_nodes rx)) ns)"
    unfolding f by simp
  with g' show ?thesis by auto
qed

lemma set_delta_nodes:
  "set (delta_nodes ra rb rc) = set (res_nodes ra) \<union> set (res_nodes rb) \<union> set (res_nodes rc)"
  unfolding delta_nodes_def by (simp only: set_remdups set_append Un_assoc)

lemma ring_net_eq:
  "ring_net = \<lparr>nodes = [(0, [Resistor 1 0 1, Resistor 3 2 0]),
                          (1, [Resistor 1 0 1, Resistor 2 1 2]),
                          (2, [Resistor 2 1 2, Resistor 3 2 0])],
                 resistors = [Resistor 1 0 1, Resistor 2 1 2, Resistor 3 2 0],
                 terminals = {}\<rparr>"
  by (simp add: ring_net_def eval_defs)

lemma ring_forward_step:
  "search_forward (Suc fuel) ring_net (ret @ [Resistor 3 2 0]) 0
     = search_forward fuel ring_net ((ret @ [Resistor 3 2 0]) @ [Resistor 2 1 2]) 2"
  "search_forward (Suc fuel) ring_net (ret @ [Resistor 2 1 2]) 2
     = search_forward fuel ring_net ((ret @ [Resistor 2 1 2]) @ [Resistor 1 0 1]) 1"
  "search_forward (Suc fuel) ring_net (ret @ [Resistor 1 0 1]) 1
     = search_forward fuel ring_net ((ret @ [Resistor 1 0 1]) @ [Resistor 3 2 0]) 0"
  by (simp_all add: ring_net_eq otherthan_node_def otherthan_res_def usage_def res_eq_iff)

lemma ring_forward_never_returns:
  "search_forward fuel ring_net (ret @ [Resistor 3 2 0]) 0 = None
   \<and> search_forward fuel ring_net (ret @ [Resistor 2 1 2]) 2 = None
   \<and> search_forward fuel ring_net (ret @ [Resistor 1 0 1]) 1 = None"
proof (induction fuel arbitrary: ret)
  case 0
  show ?case by simp
next
  case (Suc fuel)
  show ?case
    unfolding ring_forward_step
    using Suc.IH [of "ret @ [Resistor 3 2 0]"] Suc.IH [of "ret @ [Resistor 2 1 2]"]
      Suc.IH [of "ret @ [Resistor 1 0 1]"]
    by simp
qed

lemma find_series_not_series_node:
  "usage g startnode = Inr u \<Longrightarrow> u \<noteq> 2 \<or> startnode \<in> terminals g \<Longrightarrow>
     find_series fuel g startnode = Some (Inr ([], startnode, startnode))"
  by (auto simp: find_series_def)

lemma adj_add_terminal [simp]: "adj (add_terminal g n) = adj g"
  by (simp add: adj_def add_terminal_def fun_eq_iff)

lemma adj_remove_terminal [simp]: "adj (remove_terminal g n) = adj g"
  by (simp add: adj_def remove_terminal_def fun_eq_iff)

lemma occ_add_terminal [simp]: "occ (add_terminal g n) = occ g"
  by (simp add: occ_def fun_eq_iff)

lemma occ_remove_terminal [simp]: "occ (remove_terminal g n) = occ g"
  by (simp add: occ_def fun_eq_iff)

lemma resistors_add_terminal [simp]: "resistors (add_terminal g n) = resistors g"
  by (simp add: add_terminal_def)

lemma resistors_remove_terminal [simp]: "resistors (remove_terminal g n) = resistors g"
  by (simp add: remove_terminal_def)

lemma list_remove_subset: "list_remove x l = Some l' \<Longrightarrow> set l' \<subseteq> set l"
  by (induction l arbitrary: l') (auto split: if_splits)

lemma set_adj_remove:
  assumes "remove g x = Inr g'"
  shows "set (adj g' n) \<subseteq> set (adj g n)"
proof -
  from remove_Inr_D [OF assms] obtain g1 l1 l2 where
    l1: "list_remove x (adj g (res_n1 x)) = Some l1" and
    g1: "adj g1 = (adj g)(res_n1 x := l1)" and
    l2: "list_remove x (adj g1 (res_n2 x)) = Some l2" and
    g': "adj g' = (adj g1)(res_n2 x := l2)"
    by blast
  from list_remove_subset [OF l1] g1 have "set (adj g1 m) \<subseteq> set (adj g m)" for m
    by auto
  moreover from list_remove_subset [OF l2] g' have "set (adj g' n) \<subseteq> set (adj g1 n)"
    by auto
  ultimately show ?thesis by blast
qed

lemma built_incident:
  "built g \<Longrightarrow> x \<in> set (adj g n) \<Longrightarrow> n \<in> set (res_nodes x)"
proof (induction arbitrary: x n rule: built.induct)
  case built_init
  then show ?case by (simp add: adj_def RNetwork_init_def)
next
  case (built_add g y)
  then show ?case
    by (auto simp: adj_add res_nodes_def split: if_splits)
next
  case (built_remove g y g')
  with set_adj_remove [OF built_remove.hyps(2), of n] show ?case by blast
next
  case (built_add_terminal g m)
  then show ?case by simp
next
  case (built_remove_terminal g m)
  then show ?case by simp
qed

lemma inc_of_single_neq: "\<not> res_eq y x \<Longrightarrow> inc_of [x] y n = 0"
  by (simp add: inc_of_def)

lemma inc_of_single_eq: "res_eq y x \<Longrightarrow> inc_of [x] y n = incid y n"
  by (simp add: inc_of_def res_eq_incid)

lemma incid_ends [simp]: "0 < incid x (res_n1 x)" "0 < incid x (res_n2 x)"
  by (simp_all add: incid_def)

lemma built_member_occ:
  "built g \<Longrightarrow> set_member y (resistors g) \<Longrightarrow>
     1 \<le> occ g (res_n1 y) y \<and> 1 \<le> occ g (res_n2 y) y"
proof (induction arbitrary: y rule: built.induct)
  case built_init
  then show ?case by (simp add: set_member_def RNetwork_init_def)
next
  case (built_add g x)
  show ?case
  proof (cases "res_eq y x")
    case True
    have "0 < incid y (res_n1 y)" "0 < incid y (res_n2 y)" by simp_all
    then show ?thesis
      by (simp add: occ_add inc_of_single_eq [OF True] Suc_le_eq)
  next
    case False
    with built_add.prems have "set_member y (resistors g)"
      by (auto simp: set_member_set_add dest: res_eq_sym)
    from built_add.IH [OF this] show ?thesis
      by (simp add: occ_add)
  qed
next
  case (built_remove g x g')
  from built_remove.prems have m: "set_member y (resistors g)" and ne: "\<not> res_eq y x"
    by (auto simp: resistors_remove [OF built_remove.hyps(2)] set_member_set_discard
        dest: res_eq_sym)
  from built_remove.IH [OF m] occ_remove [OF built_remove.hyps(2), of _ y]
  show ?case
    by (simp add: inc_of_single_neq [OF ne])
next
  case (built_add_terminal g n)
  then show ?case by simp
next
  case (built_remove_terminal g n)
  then show ?case by simp
qed

lemma built_simple_occ:
  "built_simple g \<Longrightarrow> occ g n y = (if set_member y (resistors g) then incid y n else 0)"
proof (induction arbitrary: y n rule: built_simple.induct)
  case simple_init
  then show ?case
    by (simp add: set_member_def RNetwork_init_def occ_def copies_def adj_def)
next
  case (simple_add g x)
  show ?case
  proof (cases "res_eq y x")
    case True
    with simple_add.hyps(3) have "\<not> set_member y (resistors g)"
      by (simp add: set_member_cong [OF True])
    with simple_add.IH [of n y] True show ?thesis
      by (auto simp: occ_add inc_of_single_eq set_member_set_add dest: res_eq_sym)
  next
    case False
    with simple_add.IH [of n y] show ?thesis
      by (auto simp: occ_add inc_of_single_neq set_member_set_add dest: res_eq_sym)
  qed
next
  case (simple_remove g x g')
  note rm = simple_remove.hyps(2)
  show ?case
  proof (cases "res_eq y x")
    case True
    from occ_remove [OF rm, of n y] simple_remove.IH [of n y] True
    show ?thesis
      by (auto simp: inc_of_single_eq resistors_remove [OF rm] set_member_set_discard
          dest: res_eq_sym split: if_splits)
  next
    case False
    from occ_remove [OF rm, of n y] simple_remove.IH [of n y] False
    show ?thesis
      by (auto simp: inc_of_single_neq resistors_remove [OF rm] set_member_set_discard
          dest: res_eq_sym)
  qed
next
  case (simple_add_terminal g m)
  then show ?case by simp
next
  case (simple_remove_terminal g m)
  then show ?case by simp
qed

lemma built_simple_no_loops:
  "built_simple g \<Longrightarrow> set_member y (resistors g) \<Longrightarrow> res_n1 y \<noteq> res_n2 y"
proof (induction arbitrary: y rule: built_simple.induct)
  case simple_init
  then show ?case by (simp add: set_member_def RNetwork_init_def)
next
  case (simple_add g x)
  show ?case
  proof (cases "res_eq x y")
    case True
    with simple_add.hyps(2) show ?thesis
      by (cases x; cases y) (auto simp: res_eq_iff)
  next
    case False
    with simple_add.prems have "set_member y (resistors g)"
      by (simp add: set_member_set_add)
    then show ?thesis by (rule simple_add.IH)
  qed
next
  case (simple_remove g x g')
  from simple_remove.prems have "set_member y (resistors g)"
    by (simp add: resistors_remove [OF simple_remove.hyps(2)] set_member_set_discard)
  then show ?case by (rule simple_remove.IH)
next
  case (simple_add_terminal g m)
  then show ?case by simp
next
  case (simple_remove_terminal g m)
  then show ?case by simp
qed

lemma built_remove_all: "built g \<Longrightarrow> remove_all xs g = Inr g' \<Longrightarrow> built g'"
  by (induction xs arbitrary: g) (auto split: sum.splits intro: built_remove)

lemma built_join_series:
  "built g \<Longrightarrow> join_series g rs firstnode lastnode = Inr g' \<Longrightarrow> built g'"
  by (auto simp: join_series_def join_series_loop_eq split: sum.splits
      intro: built_add built_remove_all)

lemma built_join_parallel_loop:
  "built g \<Longrightarrow> join_parallel_loop bs c g = Inr (c', g') \<Longrightarrow> built g'"
  by (induction bs arbitrary: c g) (auto split: sum.splits if_splits intro: built_remove)

lemma built_join_parallel: "built g \<Longrightarrow> join_parallel g bs = Inr g' \<Longrightarrow> built g'"
  by (auto simp: join_parallel_def split: sum.splits if_splits prod.splits
      intro: built_add built_join_parallel_loop)

lemma built_remove3:
  "built g \<Longrightarrow> remove g a = Inr g1 \<Longrightarrow> remove g1 b = Inr g2 \<Longrightarrow> remove g2 c = Inr g3
     \<Longrightarrow> built g3"
  by (blast intro: built_remove)

lemma built_convert_wye_to_delta:
  "built g \<Longrightarrow> convert_wye_to_delta g r1 r2 r3 = Inr g' \<Longrightarrow> built g'"
  by (auto simp: convert_wye_to_delta_def Let_def split: sum.splits if_splits prod.splits
      intro!: built_add intro: built_remove3)

lemma built_add_spoke: "built g \<Longrightarrow> add_spoke g r c ns rx = Inr g' \<Longrightarrow> built g'"
  by (auto dest!: add_spoke_Inr_D intro: built_add)

lemma built_convert_delta_to_wye:
  "built g \<Longrightarrow> convert_delta_to_wye g ra rb rc = Inr g' \<Longrightarrow> built g'"
proof -
  assume b: "built g" and conv: "convert_delta_to_wye g ra rb rc = Inr g'"
  from conv obtain r1 r2 r3 g1 g2 g3 g4 g5 where
    rm: "remove g ra = Inr g1" "remove g1 rb = Inr g2" "remove g2 rc = Inr g3" and
    sp: "add_spoke g3 r1 (free_node g) (delta_nodes ra rb rc) ra = Inr g4"
      "add_spoke g4 r2 (free_node g) (delta_nodes ra rb rc) rb = Inr g5"
      "add_spoke g5 r3 (free_node g) (delta_nodes ra rb rc) rc = Inr g'"
    unfolding convert_delta_to_wye_def Let_def
    by (auto split: sum.splits if_splits)
  from b rm have "built g3" by (rule built_remove3)
  with sp show ?thesis by (blast intro: built_add_spoke)
qed

lemma built_prune_loop: "built g \<Longrightarrow> prune_loop ns g = Inr g' \<Longrightarrow> built g'"
  by (induction ns arbitrary: g)
     (auto split: option.splits sum.splits if_splits intro: built_remove)

lemma built_prune_dangling: "built g \<Longrightarrow> prune_dangling g = Inr g' \<Longrightarrow> built g'"
  by (auto simp: prune_dangling_def intro: built_prune_loop)

lemma built_solve_parallel_loop:
  "built g \<Longrightarrow> solve_parallel_loop xs found g = Inr (found', g') \<Longrightarrow> built g'"
  by (induction xs arbitrary: found g)
     (auto split: sum.splits if_splits intro: built_join_parallel)

lemma built_solve_parallel: "built g \<Longrightarrow> solve_parallel g = Inr (found, g') \<Longrightarrow> built g'"
  by (auto simp: solve_parallel_def intro: built_solve_parallel_loop)

lemma built_solve_series_loop:
  "built g \<Longrightarrow> solve_series_loop fuel ns found g = Some (Inr (found', g')) \<Longrightarrow> built g'"
  by (induction ns arbitrary: found g)
     (auto split: option.splits sum.splits if_splits prod.splits intro: built_join_series)

lemma built_solve_series:
  "built g \<Longrightarrow> solve_series fuel g = Some (Inr (found, g')) \<Longrightarrow> built g'"
  by (auto simp: solve_series_def intro: built_solve_series_loop)

lemma history_built: "history g \<Longrightarrow> built g"
  by (induction rule: history.induct)
     (blast intro: built.intros built_prune_dangling built_join_series built_join_parallel
        built_solve_series built_solve_parallel built_convert_wye_to_delta
        built_convert_delta_to_wye)+

lemma incid_both_ends: "incid y (res_n1 y) = incid y (res_n2 y)"
  by (simp add: incid_def)

lemma built_occ_ends: "built g \<Longrightarrow> occ g (res_n1 y) y = occ g (res_n2 y) y"
proof (induction arbitrary: y rule: built.induct)
  case built_init
  then show ?case by (simp add: RNetwork_init_def occ_def copies_def adj_def)
next
  case (built_add g x)
  show ?case
  proof (cases "res_eq y x")
    case True
    with built_add.IH [of y] show ?thesis
      by (simp add: occ_add inc_of_single_eq incid_both_ends)
  next
    case False
    with built_add.IH [of y] show ?thesis
      by (simp add: occ_add inc_of_single_neq)
  qed
next
  case (built_remove g x g')
  note rm = built_remove.hyps(2)
  show ?case
  proof (cases "res_eq y x")
    case True
    from occ_remove [OF rm, of "res_n1 y" y] occ_remove [OF rm, of "res_n2 y" y]
      built_remove.IH [of y] True
    show ?thesis
      by (simp add: inc_of_single_eq incid_both_ends)
  next
    case False
    from occ_remove [OF rm, of "res_n1 y" y] occ_remove [OF rm, of "res_n2 y" y]
      built_remove.IH [of y] False
    show ?thesis
      by (simp add: inc_of_single_neq)
  qed
next
  case (built_add_terminal g n)
  then show ?case by simp
next
  case (built_remove_terminal g n)
  then show ?case by simp
qed

lemma occ_positive_iff: "0 < occ g n y \<longleftrightarrow> list_ex (res_eq y) (adj g n)"
  by (auto simp: occ_def copies_def list_ex_iff filter_empty_conv)

lemma terminals_remove_from: "terminals (net_of (remove_from n x g)) = terminals g"
  by (simp add: remove_from_def net_of_def split: option.splits)

lemma terminals_remove_any: "terminals (net_of (remove g x)) = terminals g"
proof (cases "remove_from (res_n1 x) x g")
  case (Inl a)
  with terminals_remove_from [of "res_n1 x" x g] show ?thesis
    by (simp add: remove_def)
next
  case (Inr g1)
  with terminals_remove_from [of "res_n1 x" x g] have t1: "terminals g1 = terminals g"
    by (simp add: net_of_def)
  show ?thesis
  proof (cases "remove_from (res_n2 x) x g1")
    case (Inl a)
    with terminals_remove_from [of "res_n2 x" x g1] t1 Inr show ?thesis
      by (simp add: remove_def)
  next
    case Inr2: (Inr g2)
    with terminals_remove_from [of "res_n2 x" x g1] t1 Inr show ?thesis
      by (simp add: remove_def net_of_def)
  qed
qed

lemma terminals_remove_Inl: "remove g x = Inl (e, g') \<Longrightarrow> terminals g' = terminals g"
  using terminals_remove_any [of g x] by (simp add: net_of_def)

lemma terminals_remove_Inr: "remove g x = Inr g' \<Longrightarrow> terminals g' = terminals g"
  using terminals_remove_any [of g x] by (simp add: net_of_def)

lemmas terminals_remove_cases = terminals_remove_Inl terminals_remove_Inr

lemma terminals_prune_loop: "terminals (net_of (prune_loop ns g)) = terminals g"
proof (induction ns arbitrary: g)
  case Nil
  show ?case by (simp add: net_of_def)
next
  case (Cons n ns)
  show ?case
  proof (cases "map_of (nodes g) n")
    case None
    then show ?thesis by (simp add: net_of_def)
  next
    case (Some rs)
    show ?thesis
    proof (cases "n \<notin> terminals g \<and> length rs = 1")
      case False
      with Some Cons.IH [of g] show ?thesis by auto
    next
      case True
      show ?thesis
      proof (cases "remove g (hd rs)")
        case (Inl a)
        with Some True terminals_remove_any [of g "hd rs"] show ?thesis by simp
      next
        case (Inr g')
        with terminals_remove_Inr [OF Inr] Some True Cons.IH [of g'] show ?thesis by simp
      qed
    qed
  qed
qed

lemma terminals_join_series_loop:
  "terminals (case join_series_loop xs r g of Inl (e, g') \<Rightarrow> g' | Inr (r', g') \<Rightarrow> g') = terminals g"
proof (induction xs arbitrary: r g)
  case Nil
  show ?case by simp
next
  case (Cons x xs)
  show ?case
  proof (cases "remove g x")
    case (Inl a)
    then show ?thesis
      by (cases a) (simp add: terminals_remove_Inl)
  next
    case (Inr g')
    with Cons.IH [of "r + res_r x" g'] terminals_remove_Inr [OF Inr] show ?thesis by simp
  qed
qed

lemma terminals_join_series: "terminals (net_of (join_series g rs f l)) = terminals g"
  using terminals_join_series_loop [of rs 0 g]
  by (auto simp: join_series_def net_of_def add_def split: sum.splits prod.splits)

lemma terminals_join_parallel_loop:
  "terminals (case join_parallel_loop xs c g of Inl (e, g') \<Rightarrow> g' | Inr (c', g') \<Rightarrow> g') = terminals g"
proof (induction xs arbitrary: c g)
  case Nil
  show ?case by simp
next
  case (Cons x xs)
  show ?case
  proof (cases "res_r x = 0")
    case True
    then show ?thesis by simp
  next
    case False
    show ?thesis
    proof (cases "remove g x")
      case (Inl a)
      with False show ?thesis
        by (cases a) (simp add: terminals_remove_Inl)
    next
      case (Inr g')
      with False Cons.IH [of "c + 1 / res_r x" g'] terminals_remove_Inr [OF Inr] show ?thesis
        by simp
    qed
  qed
qed

lemma terminals_join_parallel: "terminals (net_of (join_parallel g bs)) = terminals g"
  using terminals_join_parallel_loop [of bs 0 g]
  by (auto simp: join_parallel_def net_of_def add_def split: sum.splits prod.splits)

lemma terminals_remove_all: "terminals (net_of (remove_all xs g)) = terminals g"
proof (induction xs arbitrary: g)
  case Nil
  show ?case by (simp add: net_of_def)
next
  case (Cons x xs)
  show ?case
  proof (cases "remove g x")
    case (Inl a)
    with terminals_remove_any [of g x] show ?thesis by simp
  next
    case (Inr g')
    with Cons.IH [of g'] terminals_remove_Inr [OF Inr] show ?thesis by simp
  qed
qed

lemma terminals_remove_all_Inl: "remove_all xs g = Inl (e, g') \<Longrightarrow> terminals g' = terminals g"
  using terminals_remove_all [of xs g] by (simp add: net_of_def)

lemma terminals_remove_all_Inr: "remove_all xs g = Inr g' \<Longrightarrow> terminals g' = terminals g"
  using terminals_remove_all [of xs g] by (simp add: net_of_def)

lemma remove3_eq:
  "(case remove g a of
      Inl e \<Rightarrow> Inl e
    | Inr g1 \<Rightarrow>
        (case remove g1 b of
           Inl e \<Rightarrow> Inl e
         | Inr g2 \<Rightarrow> (case remove g2 c of Inl e \<Rightarrow> Inl e | Inr g3 \<Rightarrow> F g3)))
   = (case remove_all [a, b, c] g of Inl e \<Rightarrow> Inl e | Inr g3 \<Rightarrow> F g3)"
  by (simp split: sum.splits)

lemma terminals_convert_wye_to_delta:
  "terminals (net_of (convert_wye_to_delta g r1 r2 r3)) = terminals g"
proof (cases "remove_all [r1, r2, r3] g")
  case (Inl a)
  with terminals_remove_all [of "[r1, r2, r3]" g] show ?thesis
    unfolding convert_wye_to_delta_def Let_def remove3_eq
    by (cases a) (auto simp: net_of_def split: sum.splits prod.splits)
next
  case (Inr g3)
  with terminals_remove_all [of "[r1, r2, r3]" g] show ?thesis
    unfolding convert_wye_to_delta_def Let_def remove3_eq
    by (auto simp: net_of_def add_def split: sum.splits prod.splits)
qed

lemma terminals_add_spoke: "terminals (net_of (add_spoke g r c ns rx)) = terminals g"
  by (simp add: add_spoke_def net_of_def add_def split: sum.splits)

lemma terminals_add_spoke_Inl: "add_spoke g r c ns rx = Inl (e, g') \<Longrightarrow> terminals g' = terminals g"
  using terminals_add_spoke [of g r c ns rx] by (simp add: net_of_def)

lemma terminals_add_spoke_Inr: "add_spoke g r c ns rx = Inr g' \<Longrightarrow> terminals g' = terminals g"
  using terminals_add_spoke [of g r c ns rx] by (simp add: net_of_def)

lemma terminals_three_spokes:
  "terminals (net_of (case add_spoke g r1 c ns ra of
       Inl e \<Rightarrow> Inl e
     | Inr g4 \<Rightarrow>
         (case add_spoke g4 r2 c ns rb of
            Inl e \<Rightarrow> Inl e
          | Inr g5 \<Rightarrow> add_spoke g5 r3 c ns rc))) = terminals g"
proof (cases "add_spoke g r1 c ns ra")
  case (Inl a)
  with terminals_add_spoke [of g r1 c ns ra] show ?thesis by simp
next
  case (Inr g4)
  with terminals_add_spoke [of g r1 c ns ra] have t4: "terminals g4 = terminals g"
    by (simp add: net_of_def)
  show ?thesis
  proof (cases "add_spoke g4 r2 c ns rb")
    case (Inl a)
    with terminals_add_spoke [of g4 r2 c ns rb] Inr t4 show ?thesis by simp
  next
    case Inr5: (Inr g5)
    with terminals_add_spoke [of g4 r2 c ns rb] t4 have "terminals g5 = terminals g"
      by (simp add: net_of_def)
    with Inr Inr5 terminals_add_spoke [of g5 r3 c ns rc] show ?thesis by simp
  qed
qed

lemma terminals_convert_delta_to_wye:
  "terminals (net_of (convert_delta_to_wye g ra rb rc)) = terminals g"
proof (cases "delta_to_wye (res_r ra) (res_r rb) (res_r rc)")
  case (Inl e)
  then show ?thesis by (simp add: convert_delta_to_wye_def net_of_def)
next
  case (Inr rs)
  obtain r1 r2 r3 where rs: "rs = (r1, r2, r3)" by (cases rs)
  show ?thesis
  proof (cases "length (delta_nodes ra rb rc) \<noteq> 3")
    case True
    with Inr rs show ?thesis by (simp add: convert_delta_to_wye_def net_of_def)
  next
    case False
    show ?thesis
    proof (cases "remove_all [ra, rb, rc] g")
      case (Inl a)
      with terminals_remove_all [of "[ra, rb, rc]" g] Inr rs False show ?thesis
        unfolding convert_delta_to_wye_def Let_def remove3_eq by simp
    next
      case Inr3: (Inr g3)
      with terminals_remove_all [of "[ra, rb, rc]" g] have "terminals g3 = terminals g"
        by (simp add: net_of_def)
      with Inr3 Inr rs False
        terminals_three_spokes [where g = g3 and ?r1.0 = r1 and ?r2.0 = r2 and ?r3.0 = r3
          and c = "free_node g" and ns = "delta_nodes ra rb rc" and ra = ra and rb = rb and rc = rc]
      show ?thesis
        unfolding convert_delta_to_wye_def Let_def remove3_eq by simp
    qed
  qed
qed

lemma terminals_solve_parallel_loop:
  "terminals (net_of_found (solve_parallel_loop xs found g)) = terminals g"
proof (induction xs arbitrary: found g)
  case Nil
  show ?case by (simp add: net_of_found_def)
next
  case (Cons x xs)
  show ?case
  proof (cases "set_member x (resistors g)")
    case False
    with Cons.IH [of found g] show ?thesis by simp
  next
    case True
    show ?thesis
    proof (cases "find_parallel g (res_n1 x) (res_n2 x)")
      case (Inl e)
      with True show ?thesis by (simp add: net_of_found_def)
    next
      case (Inr rs)
      show ?thesis
      proof (cases "length rs = 1")
        case True
        with \<open>set_member x (resistors g)\<close> Inr Cons.IH [of found g] show ?thesis by simp
      next
        case False
        show ?thesis
        proof (cases "join_parallel g rs")
          case (Inl a)
          with terminals_join_parallel [of g rs] True Inr False show ?thesis
            by (cases a) (simp add: net_of_def net_of_found_def)
        next
          case Inr2: (Inr g')
          with terminals_join_parallel [of g rs] have "terminals g' = terminals g"
            by (simp add: net_of_def)
          with Inr2 True Inr False Cons.IH [of True g'] show ?thesis by simp
        qed
      qed
    qed
  qed
qed

lemma terminals_solve_parallel: "terminals (net_of_found (solve_parallel g)) = terminals g"
  by (simp add: solve_parallel_def terminals_solve_parallel_loop)

lemma terminals_solve_series_loop:
  "solve_series_loop fuel ns found g = Some out \<Longrightarrow> terminals (net_of_found out) = terminals g"
proof (induction ns arbitrary: found g)
  case Nil
  then show ?case by (auto simp: net_of_found_def)
next
  case (Cons n ns)
  show ?case
  proof (cases "map_of (nodes g) n = None")
    case True
    with Cons.prems Cons.IH [of found g] show ?thesis by simp
  next
    case False
    with Cons.prems have prem:
      "(case find_series fuel g n of
          None \<Rightarrow> None
        | Some (Inl e) \<Rightarrow> Some (Inl (e, g))
        | Some (Inr (rs, firstnode, lastnode)) \<Rightarrow>
            if rs = [] then solve_series_loop fuel ns found g
            else
              (case join_series g rs firstnode lastnode of
                 Inl e \<Rightarrow> Some (Inl e)
               | Inr g' \<Rightarrow> solve_series_loop fuel ns True g')) = Some out"
      by (simp del: not_None_eq)
    show ?thesis
    proof (cases "find_series fuel g n")
      case None
      with prem show ?thesis by simp
    next
      case (Some res)
      show ?thesis
      proof (cases res)
        case (Inl e)
        with Some prem show ?thesis by (auto simp: net_of_found_def)
      next
        case (Inr triple)
        obtain rs firstnode lastnode where t: "triple = (rs, firstnode, lastnode)"
          by (cases triple)
        show ?thesis
        proof (cases "rs = []")
          case True
          with Some Inr t prem Cons.IH [of found g] show ?thesis by simp
        next
          case ne: False
          show ?thesis
          proof (cases "join_series g rs firstnode lastnode")
            case (Inl a)
            with Some Inr t ne prem have "out = Inl a" by simp
            with terminals_join_series [of g rs firstnode lastnode] Inl
            show ?thesis
              by (cases a) (simp add: net_of_def net_of_found_def)
          next
            case Inr2: (Inr g')
            with terminals_join_series [of g rs firstnode lastnode]
            have "terminals g' = terminals g" by (simp add: net_of_def)
            with Inr2 Some Inr t ne prem Cons.IH [of True g'] show ?thesis by simp
          qed
        qed
      qed
    qed
  qed
qed

lemma terminals_solve_series:
  "solve_series fuel g = Some out \<Longrightarrow> terminals (net_of_found out) = terminals g"
  by (simp add: solve_series_def terminals_solve_series_loop)

lemma terminals_reduce_loop:
  "reduce_loop fuel g = Some out \<Longrightarrow> terminals (net_of out) = terminals g"
proof (induction fuel arbitrary: g)
  case 0
  then show ?case by simp
next
  case (Suc fuel)
  show ?case
  proof (cases "solve_parallel g")
    case (Inl a)
    with Suc.prems have "out = Inl a" by simp
    with terminals_solve_parallel [of g] Inl show ?thesis
      by (cases a) (simp add: net_of_def net_of_found_def)
  next
    case (Inr fg)
    obtain found g1 where fg: "fg = (found, g1)" by (cases fg)
    with Inr terminals_solve_parallel [of g] have t1: "terminals g1 = terminals g"
      by (simp add: net_of_found_def)
    show ?thesis
    proof (cases found)
      case True
      with Inr fg Suc.prems Suc.IH [of g1] t1 show ?thesis by simp
    next
      case False
      show ?thesis
      proof (cases "solve_series fuel g1")
        case None
        with Inr fg False Suc.prems show ?thesis by simp
      next
        case (Some res)
        note ts = terminals_solve_series [OF Some]
        show ?thesis
        proof (cases res)
          case (Inl a)
          with Some Inr fg False Suc.prems have "out = Inl a" by simp
          with Inl ts t1 show ?thesis
            by (cases a) (simp add: net_of_def net_of_found_def)
        next
          case Inr2: (Inr fg2)
          obtain found2 g2 where fg2: "fg2 = (found2, g2)" by (cases fg2)
          with Inr2 ts t1 have t2: "terminals g2 = terminals g"
            by (simp add: net_of_found_def)
          show ?thesis
          proof (cases found2)
            case True
            with Some Inr2 fg2 Inr fg False Suc.prems Suc.IH [of g2] t2 show ?thesis by simp
          next
            case f2: False
            with Some Inr2 fg2 Inr fg False Suc.prems have "out = Inr g2" by simp
            with t2 show ?thesis
              by (simp add: net_of_def)
          qed
        qed
      qed
    qed
  qed
qed

lemma terminals_try_wye: "terminals (net_of (try_wye g)) = terminals g"
proof (cases "find_wye g")
  case (Inl e)
  then show ?thesis by (simp add: try_wye_def net_of_def)
next
  case (Inr rs)
  show ?thesis
  proof (cases "\<exists>r1 r2 r3. rs = [r1, r2, r3]")
    case True
    then obtain r1 r2 r3 where "rs = [r1, r2, r3]" by blast
    with Inr terminals_convert_wye_to_delta [of g r1 r2 r3] show ?thesis
      by (simp add: try_wye_def)
  next
    case False
    with Inr have "try_wye g = Inl (TypeError, g)"
      by (auto simp: try_wye_def split: list.splits)
    then show ?thesis by (simp add: net_of_def)
  qed
qed

lemma solve_loop_keeps_terminal_set:
  "solve_loop fuel shuffle choice k g = Some out \<Longrightarrow> terminals (net_of out) = terminals g"
proof (induction fuel arbitrary: k g)
  case 0
  then show ?case by simp
next
  case (Suc fuel)
  show ?case
  proof (cases "prune_dangling g")
    case (Inl a)
    with Suc.prems have "out = Inl a" by simp
    with terminals_prune_loop [of "map fst (nodes g)" g] Inl show ?thesis
      by (simp add: prune_dangling_def)
  next
    case (Inr g1)
    with terminals_prune_loop [of "map fst (nodes g)" g] have t1: "terminals g1 = terminals g"
      by (simp add: prune_dangling_def net_of_def)
    show ?thesis
    proof (cases "reduce_loop fuel g1")
      case None
      with Inr Suc.prems show ?thesis by simp
    next
      case (Some res)
      note tr = terminals_reduce_loop [OF Some]
      show ?thesis
      proof (cases res)
        case (Inl a)
        with Some Inr Suc.prems have "out = Inl a" by simp
        with Inl tr t1 show ?thesis by simp
      next
        case Inr2: (Inr g2)
        with tr t1 have t2: "terminals g2 = terminals g" by (simp add: net_of_def)
        show ?thesis
        proof (cases "try_wye g2")
          case Inr3: (Inr g3)
          with terminals_try_wye [of g2] t2 have "terminals g3 = terminals g"
            by (simp add: net_of_def)
          with Inr3 Some Inr2 Inr Suc.prems Suc.IH [of k g3] show ?thesis by simp
        next
          case (Inl eg)
          obtain e g3 where eg: "eg = (e, g3)" by (cases eg)
          with Inl have tw: "try_wye g2 = Inl (e, g3)" by simp
          with terminals_try_wye [of g2] t2 have t3: "terminals g3 = terminals g"
            by (simp add: net_of_def)
          from Suc.prems Inr Some Inr2 tw have out:
            "(if e \<noteq> ValueError then Some (Inl (e, g3))
              else if set (map fst (nodes g3)) = terminals g3 then Some (Inr g3)
              else
                (case find_delta (shuffle k) (choice k) g3 of
                   Inl e' \<Rightarrow> Some (Inl (e', g3))
                 | Inr (ra, rb, rc) \<Rightarrow>
                     (case convert_delta_to_wye g3 ra rb rc of
                        Inl e' \<Rightarrow> Some (Inl e')
                      | Inr g4 \<Rightarrow> solve_loop fuel shuffle choice (Suc k) g4))) = Some out"
            by simp
          show ?thesis
          proof (cases "e \<noteq> ValueError \<or> set (map fst (nodes g3)) = terminals g3")
            case True
            with out have "out = Inl (e, g3) \<or> out = Inr g3"
              by (cases "e = ValueError") simp_all
            then have "net_of out = g3"
              by (elim disjE) (simp_all add: net_of_def)
            with t3 show ?thesis by simp
          next
            case stuck: False
            show ?thesis
            proof (cases "find_delta (shuffle k) (choice k) g3")
              case Inl4: (Inl e')
              from stuck have "e = ValueError" "set (map fst (nodes g3)) \<noteq> terminals g3"
                by simp_all
              with out Inl4 have "out = Inl (e', g3)" by simp
              with t3 show ?thesis by (simp add: net_of_def)
            next
              case Inr4: (Inr tri)
              obtain ra rb rc where tri: "tri = (ra, rb, rc)" by (cases tri)
              show ?thesis
              proof (cases "convert_delta_to_wye g3 ra rb rc")
                case Inl5: (Inl a)
                from stuck have "e = ValueError" "set (map fst (nodes g3)) \<noteq> terminals g3"
                  by simp_all
                with out Inr4 tri Inl5 have "out = Inl a" by simp
                with terminals_convert_delta_to_wye [of g3 ra rb rc] Inl5 t3
                show ?thesis by simp
              next
                case Inr5: (Inr g4)
                with terminals_convert_delta_to_wye [of g3 ra rb rc] t3
                have t4: "terminals g4 = terminals g" by (simp add: net_of_def)
                from stuck have "e = ValueError" "set (map fst (nodes g3)) \<noteq> terminals g3"
                  by simp_all
                with out Inr4 tri Inr5
                have "solve_loop fuel shuffle choice (Suc k) g4 = Some out"
                  by simp
                from Suc.IH [OF this] t4 show ?thesis by simp
              qed
            qed
          qed
        qed
      qed
    qed
  qed
qed

lemma inc_of_absent: "\<not> list_ex (res_eq y) xs \<Longrightarrow> inc_of xs y n = 0"
  by (induction xs) (auto simp: inc_of_Cons)

section \<open>C1: the result of solve and the random choices of find_delta\<close>

text \<open>
  C1 says that two runs of \<open>solve\<close> on the same network, differing only in the random
  choices of \<open>find_delta\<close>, end with the same resistors between every pair of
  terminals.  The code does not do that on \<open>k4_net\<close>.  \<open>prune_dangling\<close> removes the
  resistor between the terminal 4 and the dangling node 5, which deletes the adjacency
  entry of the terminal 4 as well.  No reduction applies to the complete network on the
  terminals 0..3, the exit test \<open>set(self.nodes) == self.terminals\<close> fails because 4
  is missing, and \<open>find_delta\<close> is called.  \<open>free_node\<close> then returns 4, the
  identifier of the terminal, as the centre of the new star, and the next round of the
  loop returns.  Which triangle is opened depends on the random choice: with the first
  candidate (node 2) the resistor between 0 and 3 survives, with the last one (node 3)
  it is consumed.  Both runs return normally, with different resistors between the
  terminals 0 and 3.
\<close>

theorem solve_result_depends_on_random_choice:
  "(case solve 5 keep_order choose_first k4_net of
      Some (Inr g) \<Rightarrow> find_parallel g 0 3 = Inr [Resistor 1 0 3]
          \<and> find_parallel g 0 4 = Inr [Resistor (1 / 3) 4 0]
    | _ \<Rightarrow> False)
   \<and> (case solve 5 keep_order choose_last k4_net of
      Some (Inr g) \<Rightarrow> find_parallel g 0 3 = Inr []
          \<and> find_parallel g 0 4 = Inr [Resistor (1 / 3) 4 0]
    | _ \<Rightarrow> False)"
  by code_simp

section \<open>C2: the set of resistors and the adjacency lists\<close>

text \<open>
  C2 says that after every sequence of operations a resistor is in the set
  \<open>resistors\<close> if and only if it stands exactly once in the adjacency list of each of
  its endpoints, also after two equal resistors were added.  The set identifies equal
  resistors and the adjacency lists do not: after adding \<open>Resistor 2 0 1\<close> twice the
  resistor is in the set and stands twice in the lists of 0 and of 1.
\<close>

theorem equal_resistors_break_exactly_once:
  "set_member (Resistor 2 0 1) (resistors dup_net)
   \<and> occ dup_net 0 (Resistor 2 0 1) = 2 \<and> occ dup_net 1 (Resistor 2 0 1) = 2"
  by (simp add: dup_net_def eval_defs)

text \<open>
  C2 as amended.  (1) In every network made from the empty one by \<open>add\<close>, \<open>remove\<close>
  and the terminal operations, where no \<open>add\<close> inserts a self-loop or a resistor equal
  to one currently in the set, a resistor is in the set if and only if it stands exactly
  once in the adjacency list of each of its two endpoints.  (2) In every network reached
  by the primitive operations and the reduction rules, with no restriction on what is
  added, every resistor of the set stands at least once in the adjacency list of each
  of its endpoints.
\<close>

theorem edge_set_adjacency_invariant:
  "(built_simple g \<longrightarrow>
      (set_member x (resistors g) \<longleftrightarrow> occ g (res_n1 x) x = 1 \<and> occ g (res_n2 x) x = 1))
   \<and> (history g \<longrightarrow> set_member x (resistors g) \<longrightarrow>
        1 \<le> occ g (res_n1 x) x \<and> 1 \<le> occ g (res_n2 x) x)"
proof (intro conjI impI)
  assume s: "built_simple g"
  show "set_member x (resistors g) \<longleftrightarrow> occ g (res_n1 x) x = 1 \<and> occ g (res_n2 x) x = 1"
  proof (cases "set_member x (resistors g)")
    case True
    with built_simple_no_loops [OF s] have "res_n1 x \<noteq> res_n2 x" by blast
    with True show ?thesis
      by (simp add: built_simple_occ [OF s] incid_def)
  next
    case False
    then show ?thesis
      by (simp add: built_simple_occ [OF s])
  qed
next
  assume "history g" and "set_member x (resistors g)"
  then show "1 \<le> occ g (res_n1 x) x" "1 \<le> occ g (res_n2 x) x"
    using built_member_occ [OF history_built] by blast+
qed

theorem edge_set_adjacency_invariant_witness:
  "built_simple (add RNetwork_init (Resistor 2 0 1))
   \<and> set_member (Resistor 2 0 1) (resistors (add RNetwork_init (Resistor 2 0 1)))
   \<and> occ (add RNetwork_init (Resistor 2 0 1)) 0 (Resistor 2 0 1) = 1
   \<and> occ (add RNetwork_init (Resistor 2 0 1)) 1 (Resistor 2 0 1) = 1
   \<and> history dup_net
   \<and> set_member (Resistor 2 0 1) (resistors dup_net)
   \<and> 1 \<le> occ dup_net 0 (Resistor 2 0 1) \<and> 1 \<le> occ dup_net 1 (Resistor 2 0 1)"
proof -
  let ?g = "add RNetwork_init (Resistor 2 0 1)"
  have s: "built_simple ?g"
    by (rule simple_add [OF simple_init]) (simp_all add: eval_defs)
  have h: "history dup_net"
    unfolding dup_net_def by (intro h_add h_init)
  have m: "set_member (Resistor 2 0 1) (resistors ?g)"
    "set_member (Resistor 2 0 1) (resistors dup_net)"
    by (simp_all add: dup_net_def eval_defs)
  from edge_set_adjacency_invariant [of ?g "Resistor 2 0 1"] s m(1)
  have "occ ?g 0 (Resistor 2 0 1) = 1 \<and> occ ?g 1 (Resistor 2 0 1) = 1" by simp
  moreover from edge_set_adjacency_invariant [of dup_net "Resistor 2 0 1"] h m(2)
  have "1 \<le> occ dup_net 0 (Resistor 2 0 1) \<and> 1 \<le> occ dup_net 1 (Resistor 2 0 1)" by simp
  ultimately show ?thesis using s h m by blast
qed

section \<open>C3: terminals and prune_dangling\<close>

text \<open>
  C3 says that no reduction alters the terminal set and that no terminal node is ever
  removed from the graph.  The first half holds (\<open>solve_loop_keeps_terminal_set\<close> and
  the lemmas before it: whatever a reduction does, and whether it returns or raises,
  the terminal set is the one it started with).  The second half fails in the code: in
  \<open>lone_terminal_net\<close> the terminal 0 is a key of \<open>nodes\<close>; \<open>prune_dangling\<close> removes
  the resistor of the dangling node 1, and \<open>remove\<close> deletes the adjacency entry of
  the terminal 0 with it, so the terminal is no node of the graph any more.  \<open>solve\<close>
  itself relies on terminals staying nodes: its exit test compares the keys of
  \<open>nodes\<close> with the terminal set, can no longer succeed, and \<open>solve\<close> ends with the
  ValueError of \<open>find_delta\<close>.
\<close>

theorem prune_dangling_drops_terminal_node:
  "0 \<in> fst ` set (nodes lone_terminal_net) \<and> 0 \<in> terminals lone_terminal_net
   \<and> prune_dangling lone_terminal_net = Inr \<lparr>nodes = [], resistors = [], terminals = {0}\<rparr>
   \<and> solve 5 keep_order choose_first lone_terminal_net
       = Some (Inl (ValueError, \<lparr>nodes = [], resistors = [], terminals = {0}\<rparr>))"
  by code_simp

section \<open>C4: join_parallel\<close>

text \<open>
  C4 says that \<open>join_parallel\<close> is a no-op on fewer than two resistors, zero included.
  The guard of the code is \<open>len(branches) == 1\<close>: with no branch the conductance stays
  0 and \<open>1 / conductance\<close> raises ZeroDivisionError.
\<close>

theorem join_parallel_empty_raises:
  "join_parallel RNetwork_init [] = Inl (ZeroDivisionError, RNetwork_init)"
  by (simp add: join_parallel_def)

text \<open>
  C4 as amended.  \<open>join_parallel\<close> is a no-op when it is given exactly one resistor.
  Given two or more resistors of positive resistance that are present in the network
  and all have the endpoint set \<open>{p, q}\<close>, it returns; the new resistor has the
  resistance \<open>1 / (\<Sum> 1 / r\<^sub>i)\<close> and the endpoint set \<open>{p, q}\<close>; in every adjacency list
  the branches are gone and the new resistor is there once per end; the set of
  resistors loses the branches and gains the new resistor; the terminals are unchanged.
\<close>

theorem join_parallel_merges:
  "join_parallel g [x] = Inr g \<and>
   (2 \<le> length bs \<and> list_all (\<lambda>b. 0 < res_r b \<and> set (res_nodes b) = {p, q}) bs \<and> present g bs
    \<longrightarrow>
    (\<exists>g'. join_parallel g bs = Inr g'
       \<and> set (res_nodes (Resistor (1 / sum_list (map (\<lambda>b. 1 / res_r b) bs))
                                   (res_n1 (last bs)) (res_n2 (last bs)))) = {p, q}
       \<and> (\<forall>n y. occ g' n y + inc_of bs y n
              = occ g n y + inc_of [Resistor (1 / sum_list (map (\<lambda>b. 1 / res_r b) bs))
                                      (res_n1 (last bs)) (res_n2 (last bs))] y n)
       \<and> (\<forall>y. set_member y (resistors g') \<longleftrightarrow>
              res_eq (Resistor (1 / sum_list (map (\<lambda>b. 1 / res_r b) bs))
                        (res_n1 (last bs)) (res_n2 (last bs))) y
              \<or> set_member y (resistors g) \<and> \<not> list_ex (\<lambda>b. res_eq b y) bs)
       \<and> terminals g' = terminals g))"
proof (intro conjI impI)
  show "join_parallel g [x] = Inr g"
    by (simp add: join_parallel_def)
next
  assume asm: "2 \<le> length bs \<and> list_all (\<lambda>b. 0 < res_r b \<and> set (res_nodes b) = {p, q}) bs
    \<and> present g bs"
  define new where "new = Resistor (1 / sum_list (map (\<lambda>b. 1 / res_r b) bs))
                                   (res_n1 (last bs)) (res_n2 (last bs))"
  from asm have ne: "bs \<noteq> []" and len: "length bs \<noteq> 1"
    by auto
  from asm have pos: "list_all (\<lambda>b. 0 < 1 / res_r b) bs" and nz: "list_all (\<lambda>b. res_r b \<noteq> 0) bs"
    by (auto simp: list_all_iff)
  have cpos: "0 < sum_list (map (\<lambda>b. 1 / res_r b) bs)"
    by (rule sum_list_pos_rat [OF ne pos])
  from asm present_remove_all [of g bs] obtain g1 where
    g1: "remove_all bs g = Inr g1" and
    occ1: "\<And>n y. occ g1 n y + inc_of bs y n = occ g n y" and
    t1: "terminals g1 = terminals g" and
    mem1: "\<And>y. set_member y (resistors g1) \<longleftrightarrow>
              set_member y (resistors g) \<and> \<not> list_ex (\<lambda>x. res_eq x y) bs"
    by blast
  have jp: "join_parallel g bs = Inr (add g1 new)"
    using cpos len by (simp add: join_parallel_def join_parallel_loop_eq [OF nz] g1 new_def)
  from ne have "last bs \<in> set bs" by simp
  with asm have nodes_new: "set (res_nodes new) = {p, q}"
    by (auto simp: list_all_iff new_def res_nodes_def)
  have "occ (add g1 new) n y + inc_of bs y n = occ g n y + inc_of [new] y n" for n y
    using occ1 [of n y] by (simp add: occ_add)
  moreover have "set_member y (resistors (add g1 new)) \<longleftrightarrow>
      res_eq new y \<or> set_member y (resistors g) \<and> \<not> list_ex (\<lambda>x. res_eq x y) bs" for y
    by (auto simp: set_member_set_add mem1)
  ultimately show "\<exists>g'. join_parallel g bs = Inr g'
       \<and> set (res_nodes (Resistor (1 / sum_list (map (\<lambda>b. 1 / res_r b) bs))
                                   (res_n1 (last bs)) (res_n2 (last bs)))) = {p, q}
       \<and> (\<forall>n y. occ g' n y + inc_of bs y n
              = occ g n y + inc_of [Resistor (1 / sum_list (map (\<lambda>b. 1 / res_r b) bs))
                                      (res_n1 (last bs)) (res_n2 (last bs))] y n)
       \<and> (\<forall>y. set_member y (resistors g') \<longleftrightarrow>
              res_eq (Resistor (1 / sum_list (map (\<lambda>b. 1 / res_r b) bs))
                        (res_n1 (last bs)) (res_n2 (last bs))) y
              \<or> set_member y (resistors g) \<and> \<not> list_ex (\<lambda>b. res_eq b y) bs)
       \<and> terminals g' = terminals g"
    unfolding jp new_def [symmetric] using t1 nodes_new by simp
qed

theorem join_parallel_merges_witness:
  "2 \<le> length [Resistor 2 0 1, Resistor 2 0 1]
   \<and> present (add (add RNetwork_init (Resistor 2 0 1)) (Resistor 2 0 1))
        [Resistor 2 0 1, Resistor 2 0 1]
   \<and> (\<exists>g'. join_parallel (add (add RNetwork_init (Resistor 2 0 1)) (Resistor 2 0 1))
              [Resistor 2 0 1, Resistor 2 0 1] = Inr g'
          \<and> occ g' 0 (Resistor 1 0 1) = 1 \<and> occ g' 1 (Resistor 1 0 1) = 1
          \<and> occ g' 0 (Resistor 2 0 1) = 0 \<and> occ g' 1 (Resistor 2 0 1) = 0)"
proof -
  let ?g = "add (add RNetwork_init (Resistor 2 0 1)) (Resistor 2 0 1)"
  let ?bs = "[Resistor 2 0 1, Resistor 2 0 1]"
  have pre: "2 \<le> length ?bs
     \<and> list_all (\<lambda>b. 0 < res_r b \<and> set (res_nodes b) = {0, 1}) ?bs \<and> present ?g ?bs"
    by (simp add: present_def res_nodes_def eval_defs)
  with join_parallel_merges [of ?g undefined ?bs 0 1] obtain g' where
    g': "join_parallel ?g ?bs = Inr g'" and
    occ: "\<And>n y. occ g' n y + inc_of ?bs y n
            = occ ?g n y + inc_of [Resistor (1 / sum_list (map (\<lambda>b. 1 / res_r b) ?bs))
                                      (res_n1 (last ?bs)) (res_n2 (last ?bs))] y n"
    by blast
  have "occ g' 0 (Resistor 1 0 1) = 1" "occ g' 1 (Resistor 1 0 1) = 1"
    "occ g' 0 (Resistor 2 0 1) = 0" "occ g' 1 (Resistor 2 0 1) = 0"
    using occ [of 0 "Resistor 1 0 1"] occ [of 1 "Resistor 1 0 1"]
      occ [of 0 "Resistor 2 0 1"] occ [of 1 "Resistor 2 0 1"]
    by (simp_all add: eval_defs)
  with pre g' show ?thesis by blast
qed

section \<open>C5: join_series\<close>

text \<open>
  C5.  For every non-empty chain whose resistors are present in the network,
  \<open>join_series\<close> returns; every resistor of the chain is removed from the adjacency
  lists and exactly one resistor, of resistance the sum of the chain's resistances, is
  inserted between \<open>firstnode\<close> and \<open>lastnode\<close>; the number of copies of every other
  resistor in every adjacency list is unchanged; the set of resistors loses the chain
  and gains the new resistor; the terminals are unchanged.
\<close>

theorem join_series_replaces_chain:
  assumes "chain \<noteq> []" and "present g chain"
  shows "\<exists>g'. join_series g chain firstnode lastnode = Inr g'
     \<and> (\<forall>n y. occ g' n y + inc_of chain y n
            = occ g n y + inc_of [Resistor (sum_list (map res_r chain)) firstnode lastnode] y n)
     \<and> (\<forall>n y. \<not> list_ex (res_eq y) chain
            \<and> \<not> res_eq y (Resistor (sum_list (map res_r chain)) firstnode lastnode)
          \<longrightarrow> occ g' n y = occ g n y)
     \<and> (\<forall>y. set_member y (resistors g') \<longleftrightarrow>
            res_eq (Resistor (sum_list (map res_r chain)) firstnode lastnode) y
            \<or> set_member y (resistors g) \<and> \<not> list_ex (\<lambda>x. res_eq x y) chain)
     \<and> terminals g' = terminals g"
proof -
  from present_remove_all [OF assms(2)] obtain g1 where
    g1: "remove_all chain g = Inr g1" and
    occ1: "\<And>n y. occ g1 n y + inc_of chain y n = occ g n y" and
    t1: "terminals g1 = terminals g" and
    mem1: "\<And>y. set_member y (resistors g1) \<longleftrightarrow>
              set_member y (resistors g) \<and> \<not> list_ex (\<lambda>x. res_eq x y) chain"
    by blast
  define new where "new = Resistor (sum_list (map res_r chain)) firstnode lastnode"
  have js: "join_series g chain firstnode lastnode = Inr (add g1 new)"
    by (simp add: join_series_def join_series_loop_eq g1 new_def)
  have occ: "occ (add g1 new) n y + inc_of chain y n = occ g n y + inc_of [new] y n" for n y
    using occ1 [of n y] by (simp add: occ_add)
  have same: "occ (add g1 new) n y = occ g n y"
    if "\<not> list_ex (res_eq y) chain \<and> \<not> res_eq y new" for n y
    using occ [of n y] that by (simp add: inc_of_absent inc_of_Cons)
  have mem: "set_member y (resistors (add g1 new)) \<longleftrightarrow>
      res_eq new y \<or> set_member y (resistors g) \<and> \<not> list_ex (\<lambda>x. res_eq x y) chain" for y
    by (auto simp: set_member_set_add mem1)
  from occ same mem t1 show ?thesis
    unfolding js new_def [symmetric] by simp
qed

theorem join_series_replaces_chain_witness:
  "[Resistor 3 0 1, Resistor 5 1 2] \<noteq> []
   \<and> present (add (add RNetwork_init (Resistor 3 0 1)) (Resistor 5 1 2))
        [Resistor 3 0 1, Resistor 5 1 2]
   \<and> (\<exists>g'. join_series (add (add RNetwork_init (Resistor 3 0 1)) (Resistor 5 1 2))
              [Resistor 3 0 1, Resistor 5 1 2] 0 2 = Inr g'
          \<and> occ g' 0 (Resistor 8 0 2) = 1 \<and> occ g' 2 (Resistor 8 2 0) = 1
          \<and> occ g' 1 (Resistor 3 0 1) = 0)"
proof -
  let ?g = "add (add RNetwork_init (Resistor 3 0 1)) (Resistor 5 1 2)"
  let ?chain = "[Resistor 3 0 1, Resistor 5 1 2]"
  have ne: "?chain \<noteq> []" by simp
  have p: "present ?g ?chain" by code_simp
  from join_series_replaces_chain [OF ne p, of 0 2] obtain g' where
    g': "join_series ?g ?chain 0 2 = Inr g'" and
    occ: "\<And>n y. occ g' n y + inc_of ?chain y n
            = occ ?g n y + inc_of [Resistor (sum_list (map res_r ?chain)) 0 2] y n"
    by blast
  have "occ g' 0 (Resistor 8 0 2) = 1"
    using occ [of 0 "Resistor 8 0 2"]
    by (simp add: inc_of_def incid_def occ_def copies_def adj_def add_def RNetwork_init_def
        setdefault_append_def res_eq_iff)
  moreover have "occ g' 2 (Resistor 8 2 0) = 1"
    using occ [of 2 "Resistor 8 2 0"]
    by (simp add: inc_of_def incid_def occ_def copies_def adj_def add_def RNetwork_init_def
        setdefault_append_def res_eq_iff)
  moreover have "occ g' 1 (Resistor 3 0 1) = 0"
    using occ [of 1 "Resistor 3 0 1"]
    by (simp add: inc_of_def incid_def occ_def copies_def adj_def add_def RNetwork_init_def
        setdefault_append_def res_eq_iff)
  ultimately show ?thesis using ne p g' by blast
qed

section \<open>C6: convert_wye_to_delta\<close>

text \<open>
  C6.  Let \<open>r1\<close>, \<open>r2\<close>, \<open>r3\<close> be present in the network, of non-zero resistance,
  with the endpoint sets \<open>{c, a1}\<close>, \<open>{c, a2}\<close>, \<open>{c, a3}\<close>, where \<open>c\<close>, \<open>a1\<close>,
  \<open>a2\<close>, \<open>a3\<close> are pairwise distinct, and let \<open>rp\<close> be
  \<open>r1.r * r2.r + r2.r * r3.r + r3.r * r1.r\<close>.  Then \<open>convert_wye_to_delta\<close> returns;
  it removes the three resistors and inserts exactly \<open>rp / r1.r\<close> between \<open>a2\<close> and
  \<open>a3\<close>, \<open>rp / r2.r\<close> between \<open>a3\<close> and \<open>a1\<close>, and \<open>rp / r3.r\<close> between \<open>a1\<close>
  and \<open>a2\<close>; the adjacency list of \<open>c\<close> loses three elements, and (no key of the
  dict having an empty list before) \<open>c\<close> stops being a node exactly when its list had
  nothing but the three.
\<close>

theorem convert_wye_to_delta_replaces_star:
  assumes "set (res_nodes r1) = {c, a1}" "set (res_nodes r2) = {c, a2}"
    "set (res_nodes r3) = {c, a3}" "distinct [c, a1, a2, a3]"
    "res_r r1 \<noteq> 0" "res_r r2 \<noteq> 0" "res_r r3 \<noteq> 0"
    "present g [r1, r2, r3]"
    "rp = res_r r1 * res_r r2 + res_r r2 * res_r r3 + res_r r3 * res_r r1"
  shows "\<exists>g'. convert_wye_to_delta g r1 r2 r3 = Inr g'
     \<and> (\<forall>n y. occ g' n y + inc_of [r1, r2, r3] y n
            = occ g n y + inc_of [Resistor (rp / res_r r1) a2 a3,
                                   Resistor (rp / res_r r2) a3 a1,
                                   Resistor (rp / res_r r3) a1 a2] y n)
     \<and> (\<forall>y. set_member y (resistors g') \<longleftrightarrow>
            list_ex (\<lambda>x. res_eq x y) [Resistor (rp / res_r r1) a2 a3,
                                         Resistor (rp / res_r r2) a3 a1,
                                         Resistor (rp / res_r r3) a1 a2]
            \<or> set_member y (resistors g) \<and> \<not> list_ex (\<lambda>x. res_eq x y) [r1, r2, r3])
     \<and> terminals g' = terminals g
     \<and> length (adj g' c) + 3 = length (adj g c)
     \<and> (no_empty g \<longrightarrow> (c \<notin> fst ` set (nodes g') \<longleftrightarrow> length (adj g c) = 3))"
proof -
  define A where "A = Resistor (rp / res_r r1) a2 a3"
  define B where "B = Resistor (rp / res_r r2) a3 a1"
  define C where "C = Resistor (rp / res_r r3) a1 a2"
  from present_remove_all [OF assms(8)] obtain g3 where
    g3: "remove_all [r1, r2, r3] g = Inr g3" and
    occ3: "\<And>n y. occ g3 n y + inc_of [r1, r2, r3] y n = occ g n y" and
    len3: "\<And>n. length (adj g3 n) + sum_list (map (\<lambda>x. incid x n) [r1, r2, r3]) = length (adj g n)" and
    t3: "terminals g3 = terminals g" and
    mem3: "\<And>y. set_member y (resistors g3) \<longleftrightarrow>
              set_member y (resistors g) \<and> \<not> list_ex (\<lambda>x. res_eq x y) [r1, r2, r3]"
    by blast
  define g' where "g' = add (add (add g3 A) B) C"
  have conv: "convert_wye_to_delta g r1 r2 r3 = Inr g'"
    unfolding convert_wye_to_delta_eq [OF assms(1-7)] g3 g'_def A_def B_def C_def assms(9)
    by simp
  have occ: "occ g' n y + inc_of [r1, r2, r3] y n = occ g n y + inc_of [A, B, C] y n" for n y
    using occ3 [of n y] by (simp add: g'_def occ_add inc_of_Cons)
  have mem: "set_member y (resistors g') \<longleftrightarrow>
      list_ex (\<lambda>x. res_eq x y) [A, B, C]
      \<or> set_member y (resistors g) \<and> \<not> list_ex (\<lambda>x. res_eq x y) [r1, r2, r3]" for y
    unfolding g'_def by (simp add: set_member_set_add mem3) blast
  have t: "terminals g' = terminals g"
    by (simp add: g'_def t3)
  from assms(4) have "incid A c = 0" "incid B c = 0" "incid C c = 0"
    by (auto simp: incid_def A_def B_def C_def)
  then have "length (adj g' c) = length (adj g3 c)"
    by (simp add: g'_def length_adj_add)
  moreover from assms(4) have "incid r1 c = 1" "incid r2 c = 1" "incid r3 c = 1"
    using incid_arm [OF assms(1)] incid_arm [OF assms(2)] incid_arm [OF assms(3)] by auto
  ultimately have len: "length (adj g' c) + 3 = length (adj g c)"
    using len3 [of c] by simp
  have key: "c \<notin> fst ` set (nodes g') \<longleftrightarrow> length (adj g c) = 3" if "no_empty g"
  proof -
    from that g3 have "no_empty g3" by (rule no_empty_remove_all)
    then have "no_empty g'" by (simp add: g'_def no_empty_add)
    then have "c \<notin> fst ` set (nodes g') \<longleftrightarrow> adj g' c = []"
      by (simp add: key_iff_adj)
    with len show ?thesis by auto
  qed
  from conv occ mem t len key show ?thesis
    unfolding A_def B_def C_def by blast
qed

theorem convert_wye_to_delta_replaces_star_witness:
  "present (add (add (add RNetwork_init (Resistor 2 0 3)) (Resistor 4 1 3)) (Resistor 8 2 3))
        [Resistor 2 0 3, Resistor 4 1 3, Resistor 8 2 3]
   \<and> (\<exists>g'. convert_wye_to_delta
              (add (add (add RNetwork_init (Resistor 2 0 3)) (Resistor 4 1 3)) (Resistor 8 2 3))
              (Resistor 2 0 3) (Resistor 4 1 3) (Resistor 8 2 3) = Inr g'
          \<and> occ g' 1 (Resistor 28 1 2) = 1 \<and> occ g' 2 (Resistor 14 2 0) = 1
          \<and> occ g' 0 (Resistor 7 0 1) = 1 \<and> occ g' 0 (Resistor 2 0 3) = 0
          \<and> 3 \<notin> fst ` set (nodes g'))"
proof -
  let ?g = "add (add (add RNetwork_init (Resistor 2 0 3)) (Resistor 4 1 3)) (Resistor 8 2 3)"
  have p: "present ?g [Resistor 2 0 3, Resistor 4 1 3, Resistor 8 2 3]"
    by (simp add: present_def eval_defs)
  have ne: "no_empty ?g" and len: "length (adj ?g 3) = 3"
    by (simp_all add: eval_defs)
  have c: "set (res_nodes (Resistor 2 0 3)) = {3, 0}" "set (res_nodes (Resistor 4 1 3)) = {3, 1}"
    "set (res_nodes (Resistor 8 2 3)) = {3, 2}" "distinct [3, 0, 1, 2::int]"
    "res_r (Resistor 2 0 3) \<noteq> 0" "res_r (Resistor 4 1 3) \<noteq> 0" "res_r (Resistor 8 2 3) \<noteq> 0"
    by (auto simp: res_nodes_def)
  have rp: "(56::rat) = res_r (Resistor 2 0 3) * res_r (Resistor 4 1 3)
      + res_r (Resistor 4 1 3) * res_r (Resistor 8 2 3)
      + res_r (Resistor 8 2 3) * res_r (Resistor 2 0 3)"
    by simp
  from convert_wye_to_delta_replaces_star [OF c p rp]
  obtain g' where
    g': "convert_wye_to_delta ?g (Resistor 2 0 3) (Resistor 4 1 3) (Resistor 8 2 3) = Inr g'" and
    occ: "\<And>n y. occ g' n y + inc_of [Resistor 2 0 3, Resistor 4 1 3, Resistor 8 2 3] y n
            = occ ?g n y + inc_of [Resistor (56 / res_r (Resistor 2 0 3)) 1 2,
                                   Resistor (56 / res_r (Resistor 4 1 3)) 2 0,
                                   Resistor (56 / res_r (Resistor 8 2 3)) 0 1] y n" and
    key: "no_empty ?g \<longrightarrow> (3 \<notin> fst ` set (nodes g') \<longleftrightarrow> length (adj ?g 3) = 3)"
    by blast
  have "occ g' 1 (Resistor 28 1 2) = 1" "occ g' 2 (Resistor 14 2 0) = 1"
    "occ g' 0 (Resistor 7 0 1) = 1" "occ g' 0 (Resistor 2 0 3) = 0"
    using occ [of 1 "Resistor 28 1 2"] occ [of 2 "Resistor 14 2 0"]
      occ [of 0 "Resistor 7 0 1"] occ [of 0 "Resistor 2 0 3"]
    by (simp_all add: eval_defs)
  moreover from key ne len have "3 \<notin> fst ` set (nodes g')" by blast
  ultimately show ?thesis using p g' by blast
qed

section \<open>C7: the centre allocated by convert_delta_to_wye\<close>

text \<open>
  C7 says that the centre that \<open>convert_delta_to_wye\<close> allocates has never been a node
  before and differs from every identifier removed earlier and from every terminal.
  \<open>free_node\<close> only looks at the keys that \<open>nodes\<close> has at the time of the call.  In
  the history below the terminal 3 is a node of \<open>reuse_net\<close>; removing its resistor
  deletes its adjacency entry; \<open>free_node\<close> then returns 3, and the conversion of the
  triangle puts its star on 3.
\<close>

theorem free_node_reuses_removed_terminal:
  "3 \<in> fst ` set (nodes reuse_net) \<and> 3 \<in> terminals reuse_net
   \<and> (case remove reuse_net (Resistor 1 3 4) of
        Inl e \<Rightarrow> False
      | Inr g \<Rightarrow> free_node g = 3 \<and> 3 \<in> terminals g
          \<and> (case convert_delta_to_wye g (Resistor 1 0 1) (Resistor 1 1 2) (Resistor 1 2 0) of
                Inl e \<Rightarrow> False
              | Inr g' \<Rightarrow> adj g' 3 = [Resistor (1 / 3) 3 2, Resistor (1 / 3) 3 0,
                                       Resistor (1 / 3) 3 1]))"
  by code_simp

text \<open>
  C7 as amended.  The identifier that \<open>free_node\<close> returns is no key of \<open>nodes\<close> at
  the time of the call: it is the least integer from \<open>len(self.nodes)\<close> upwards that is
  no key.  When \<open>convert_delta_to_wye\<close> returns, this identifier is the centre: its
  adjacency list holds exactly the three new resistors, each from the centre to a node
  that was a key before the call.  (The identifier may have been a node earlier in the
  history.)
\<close>

theorem convert_delta_to_wye_center_not_current:
  "free_node g \<notin> fst ` set (nodes g)
   \<and> int (length (nodes g)) \<le> free_node g
   \<and> (\<forall>j. int (length (nodes g)) \<le> j \<and> j < free_node g \<longrightarrow> j \<in> fst ` set (nodes g))
   \<and> (\<forall>g'. convert_delta_to_wye g ra rb rc = Inr g' \<longrightarrow>
         (\<exists>r1 r2 r3 a b c.
            adj g' (free_node g) = [Resistor r1 (free_node g) a, Resistor r2 (free_node g) b,
                                      Resistor r3 (free_node g) c]
            \<and> {a, b, c} \<subseteq> fst ` set (nodes g)))"
proof (intro conjI allI impI)
  show "free_node g \<notin> fst ` set (nodes g)"
    by (rule free_node_fresh)
  show "int (length (nodes g)) \<le> free_node g"
    using free_node_from_spec [of "map fst (nodes g)" "int (length (nodes g))"]
    by (simp add: free_node_def)
  show "j \<in> fst ` set (nodes g)" if "int (length (nodes g)) \<le> j \<and> j < free_node g" for j
    using free_node_from_spec [of "map fst (nodes g)" "int (length (nodes g))"] that
    by (simp add: free_node_def)
next
  fix g'
  assume conv: "convert_delta_to_wye g ra rb rc = Inr g'"
  define ctr where "ctr = free_node g"
  define ns where "ns = delta_nodes ra rb rc"
  from conv obtain r1 r2 r3 g1 g2 g3 g4 g5 where
    rm: "remove g ra = Inr g1" "remove g1 rb = Inr g2" "remove g2 rc = Inr g3" and
    sp: "add_spoke g3 r1 ctr ns ra = Inr g4" "add_spoke g4 r2 ctr ns rb = Inr g5"
      "add_spoke g5 r3 ctr ns rc = Inr g'"
    unfolding convert_delta_to_wye_def Let_def ctr_def ns_def
    by (auto split: sum.splits if_splits)
  from rm have ra3: "remove_all [ra, rb, rc] g = Inr g3"
    by simp
  from sp obtain a b c where
    abc: "a \<in> set ns" "b \<in> set ns" "c \<in> set ns" and
    g': "g' = add (add (add g3 (Resistor r1 ctr a)) (Resistor r2 ctr b)) (Resistor r3 ctr c)"
    by (auto dest!: add_spoke_Inr_D)
  have keys: "n \<in> fst ` set (nodes g)" if "n \<in> set ns" for n
    using that remove_all_keys [OF ra3, of ra] remove_all_keys [OF ra3, of rb]
      remove_all_keys [OF ra3, of rc]
    by (auto simp: ns_def set_delta_nodes res_nodes_def)
  have fresh: "ctr \<notin> fst ` set (nodes g)"
    unfolding ctr_def by (rule free_node_fresh)
  with keys abc have ne: "a \<noteq> ctr" "b \<noteq> ctr" "c \<noteq> ctr"
    by auto
  have "adj g ctr = []"
    unfolding ctr_def by (rule adj_free_node)
  with ra3 have "adj g3 ctr = []"
    by (rule remove_all_adj_empty)
  with ne have "adj g' ctr = [Resistor r1 ctr a, Resistor r2 ctr b, Resistor r3 ctr c]"
    by (simp add: g' adj_add)
  with keys abc show "\<exists>r1 r2 r3 a b c.
      adj g' (free_node g) = [Resistor r1 (free_node g) a, Resistor r2 (free_node g) b,
                                Resistor r3 (free_node g) c]
      \<and> {a, b, c} \<subseteq> fst ` set (nodes g)"
    unfolding ctr_def by blast
qed

theorem convert_delta_to_wye_center_not_current_witness:
  "free_node (add (add (add RNetwork_init (Resistor 1 0 1)) (Resistor 1 1 2)) (Resistor 1 2 0))
     \<notin> fst ` set (nodes (add (add (add RNetwork_init (Resistor 1 0 1)) (Resistor 1 1 2))
                               (Resistor 1 2 0)))
   \<and> (\<exists>g' r1 r2 r3 a b c.
        convert_delta_to_wye
          (add (add (add RNetwork_init (Resistor 1 0 1)) (Resistor 1 1 2)) (Resistor 1 2 0))
          (Resistor 1 0 1) (Resistor 1 1 2) (Resistor 1 2 0) = Inr g'
        \<and> adj g' 3 = [Resistor r1 3 a, Resistor r2 3 b, Resistor r3 3 c])"
proof -
  let ?g = "add (add (add RNetwork_init (Resistor 1 0 1)) (Resistor 1 1 2)) (Resistor 1 2 0)"
  have f: "free_node ?g = 3" by code_simp
  have "case convert_delta_to_wye ?g (Resistor 1 0 1) (Resistor 1 1 2) (Resistor 1 2 0) of
      Inl e \<Rightarrow> False | Inr g' \<Rightarrow> True"
    by code_simp
  then obtain g' where
    g': "convert_delta_to_wye ?g (Resistor 1 0 1) (Resistor 1 1 2) (Resistor 1 2 0) = Inr g'"
    by (auto split: sum.splits)
  from convert_delta_to_wye_center_not_current [of ?g "Resistor 1 0 1" "Resistor 1 1 2" "Resistor 1 2 0"]
    g' f
  show ?thesis by auto
qed

section \<open>C8: find_series on a ring\<close>

text \<open>
  C8 says that \<open>find_series\<close> terminates on every network that satisfies the
  invariants, also when the start node lies on a cycle of non-terminal nodes of degree
  2.  On \<open>ring_net\<close> (three resistors in a ring, built by three calls of \<open>add\<close>, no
  terminal) the node 0 has usage 2 and is no terminal, so the forward loop is entered,
  and it never reaches a node where it could stop: whatever the fuel, the model of
  \<open>find_series\<close> runs out of it.  The Python loop appends to \<open>ret\<close> for ever.
\<close>

theorem find_series_ring_never_returns:
  "usage ring_net 0 = Inr 2 \<and> 0 \<notin> terminals ring_net \<and> find_series fuel ring_net 0 = None"
proof -
  have "search_forward fuel ring_net ([Resistor 1 0 1] @ [Resistor 3 2 0]) 0 = None"
    using ring_forward_never_returns by blast
  then show ?thesis
    by (simp add: find_series_def usage_def ring_net_eq)
qed

theorem find_series_ring_never_returns_witness:
  "usage ring_net 0 = Inr 2 \<and> 0 \<notin> terminals ring_net \<and> find_series 1000 ring_net 0 = None"
  using find_series_ring_never_returns [of 1000] by simp

section \<open>C9: find_parallel\<close>

text \<open>
  C9 says that \<open>find_parallel\<close> returns, for every pair of identifiers, exactly the
  resistors with that endpoint set, and the empty list when there is none, in
  particular for a terminal without resistors.  The code looks up \<open>self.nodes[n1]\<close>:
  after \<open>prune_dangling\<close> on \<open>stranded_net\<close> the terminals 0 and 1 have no adjacency
  entry left and the query raises KeyError.  And for a pair of equal identifiers the
  test \<open>n2 in r.nodes\<close> holds for every resistor at the node: on \<open>ring_net\<close> the
  query for the pair (0, 0) returns both resistors at 0, neither with the endpoint set
  \<open>{0}\<close>.
\<close>

theorem find_parallel_stranded_terminal_KeyError:
  "prune_dangling stranded_net = Inr \<lparr>nodes = [], resistors = [], terminals = {0, 1}\<rparr>
   \<and> find_parallel \<lparr>nodes = [], resistors = [], terminals = {0, 1}\<rparr> 0 1 = Inl KeyError
   \<and> find_parallel ring_net 0 0 = Inr [Resistor 1 0 1, Resistor 3 2 0]"
  by code_simp

text \<open>
  C9 as amended.  In every network reached by the primitive operations and the
  reduction rules, for every node \<open>a\<close> that is a key of \<open>nodes\<close> and every identifier
  \<open>b\<close> other than \<open>a\<close>, \<open>find_parallel a b\<close> returns exactly the resistors of the
  adjacency list of \<open>a\<close> whose endpoint set is \<open>{a, b}\<close> (the empty list when there is
  none), and every resistor with that endpoint set that is in the set of resistors or
  in any adjacency list is equal to one of the returned ones.
\<close>

theorem find_parallel_between_distinct_nodes:
  assumes "history g" and "a \<in> fst ` set (nodes g)" and "a \<noteq> b"
  shows "find_parallel g a b = Inr (filter (\<lambda>x. set (res_nodes x) = {a, b}) (adj g a))
     \<and> (\<forall>x. set (res_nodes x) = {a, b}
            \<and> (set_member x (resistors g) \<or> (\<exists>n. list_ex (res_eq x) (adj g n)))
          \<longrightarrow> list_ex (res_eq x) (filter (\<lambda>x. set (res_nodes x) = {a, b}) (adj g a)))"
proof (intro conjI allI impI)
  from assms(1) have b: "built g" by (rule history_built)
  from assms(2) obtain l where l: "map_of (nodes g) a = Some l"
    unfolding key_iff_map_of by blast
  then have adj: "adj g a = l" by (simp add: adj_def)
  have "(b \<in> set (res_nodes x)) = (set (res_nodes x) = {a, b})" if "x \<in> set l" for x
  proof -
    from that adj built_incident [OF b, of x a] have "a \<in> set (res_nodes x)" by simp
    with assms(3) show ?thesis
      by (auto simp: res_nodes_def)
  qed
  then have "filter (\<lambda>x. b \<in> set (res_nodes x)) l = filter (\<lambda>x. set (res_nodes x) = {a, b}) l"
    by (intro filter_cong) auto
  then show "find_parallel g a b = Inr (filter (\<lambda>x. set (res_nodes x) = {a, b}) (adj g a))"
    by (simp add: find_parallel_def l adj)
next
  fix x
  assume x: "set (res_nodes x) = {a, b}
    \<and> (set_member x (resistors g) \<or> (\<exists>n. list_ex (res_eq x) (adj g n)))"
  from assms(1) have b: "built g" by (rule history_built)
  from x have ends: "a = res_n1 x \<or> a = res_n2 x"
    by (auto simp: res_nodes_def doubleton_eq_iff)
  have "0 < occ g (res_n1 x) x"
  proof -
    from x consider "set_member x (resistors g)" | n where "list_ex (res_eq x) (adj g n)"
      by blast
    then show ?thesis
    proof cases
      case 1
      with built_member_occ [OF b] show ?thesis by fastforce
    next
      case 2
      then obtain e where e: "e \<in> set (adj g n)" "res_eq x e"
        by (auto simp: list_ex_iff)
      from built_incident [OF b e(1)] e(2) have "n = res_n1 x \<or> n = res_n2 x"
        by (cases x; cases e) (auto simp: res_eq_iff res_nodes_def)
      moreover from 2 have "0 < occ g n x" by (simp add: occ_positive_iff)
      ultimately show ?thesis using built_occ_ends [OF b, of x] by auto
    qed
  qed
  with ends built_occ_ends [OF b, of x] have "0 < occ g a x" by auto
  then obtain e where e: "e \<in> set (adj g a)" "res_eq x e"
    by (auto simp: occ_positive_iff list_ex_iff)
  from e(2) x have "set (res_nodes e) = {a, b}"
    by (simp add: res_eq_def)
  with e show "list_ex (res_eq x) (filter (\<lambda>x. set (res_nodes x) = {a, b}) (adj g a))"
    by (auto simp: list_ex_iff)
qed

theorem find_parallel_between_distinct_nodes_witness:
  "history (add (add (add RNetwork_init (Resistor 6 0 1)) (Resistor 6 1 2)) (Resistor 3 1 2))
   \<and> 1 \<in> fst ` set (nodes (add (add (add RNetwork_init (Resistor 6 0 1)) (Resistor 6 1 2))
                                  (Resistor 3 1 2)))
   \<and> find_parallel (add (add (add RNetwork_init (Resistor 6 0 1)) (Resistor 6 1 2))
                         (Resistor 3 1 2)) 1 2
       = Inr [Resistor 6 1 2, Resistor 3 1 2]"
proof -
  let ?g = "add (add (add RNetwork_init (Resistor 6 0 1)) (Resistor 6 1 2)) (Resistor 3 1 2)"
  have h: "history ?g" by (intro h_add h_init)
  have k: "1 \<in> fst ` set (nodes ?g)" by (simp add: eval_defs)
  have ne: "(1::int) \<noteq> 2" by simp
  from find_parallel_between_distinct_nodes [OF h k ne]
  have "find_parallel ?g 1 2 = Inr (filter (\<lambda>x. set (res_nodes x) = {1, 2}) (adj ?g 1))"
    by blast
  also have "filter (\<lambda>x. set (res_nodes x) = {1, 2}) (adj ?g 1) = [Resistor 6 1 2, Resistor 3 1 2]"
    by (simp add: eval_defs res_nodes_def doubleton_eq_iff)
  finally show ?thesis using h k by blast
qed

section \<open>C10: prune_dangling on an isolated resistor\<close>

text \<open>
  C10.  There is a network built by the construction contract on which
  \<open>prune_dangling\<close> raises KeyError: one resistor between two distinct nodes \<open>a\<close> and
  \<open>b\<close>, neither of them a terminal.  The snapshot is \<open>[a, b]\<close>; at \<open>a\<close> the
  resistor is removed, which deletes both adjacency entries, and the lookup of \<open>b\<close>
  then fails.  The network at the time of the exception has no nodes and no resistors.
\<close>

theorem prune_dangling_isolated_resistor_KeyError:
  assumes "a \<noteq> b" and "a \<notin> T" and "b \<notin> T"
  shows "prune_dangling (add \<lparr>nodes = [], resistors = [], terminals = T\<rparr> (Resistor x a b))
         = Inl (KeyError, \<lparr>nodes = [], resistors = [], terminals = T\<rparr>)"
  using assms
  by (simp add: prune_dangling_def add_def setdefault_append_def set_add_def set_member_def
      remove_def remove_from_def set_discard_def)

theorem prune_dangling_isolated_resistor_KeyError_witness:
  "prune_dangling (add RNetwork_init (Resistor 1 0 1)) = Inl (KeyError, RNetwork_init)"
  using prune_dangling_isolated_resistor_KeyError [of 0 1 "{}" 1]
  by (simp add: RNetwork_init_def)

end
